theory Spec2Isabelle
  imports Complex_Main "HOL-Library.Word"
begin

text \<open>
  A shallow embedding of the poster tiler's two core classes: \<^verbatim>\<open>ImageProcessor\<close>
  (upscaling by the browser's smoothing or by a Lanczos resampler written out in the
  code) and \<^verbatim>\<open>GridSplitter\<close> (cutting the upscaled canvas into overlapping pages).
  The cooperative yields (\<^verbatim>\<open>await Utils.sleep(0)\<close>) have no effect on the results
  and are left out.
\<close>


section \<open>JavaScript numbers\<close>

text \<open>
  The program computes with JavaScript numbers. A finite number is modelled by the real
  it denotes (\<open>-0\<close> is identified with \<open>0\<close>); the three non-finite values are
  kept, because a division by zero in JavaScript does not raise: it yields
  \<open>Infinity\<close>, \<open>-Infinity\<close> or \<open>NaN\<close>, which then flow through the
  arithmetic. Where the image processor turns a quotient or a product into a pixel count
  or a branch (the scale factors and the dimensions computed by \<^verbatim>\<open>upscale\<close> and
  \<^verbatim>\<open>upscaleLanczos\<close>), the result of each operation is rounded to a double as the
  machine rounds it, by \<open>binary64\<close> below. The tile rectangle, the kernel weights, the
  channel sums and the progress values are computed exactly.
\<close>

datatype jsnum = Num real | PosInf | NegInf | NaN

fun js_neg :: "jsnum \<Rightarrow> jsnum" where
  "js_neg (Num a) = Num (- a)"
| "js_neg PosInf = NegInf"
| "js_neg NegInf = PosInf"
| "js_neg NaN = NaN"

fun js_add :: "jsnum \<Rightarrow> jsnum \<Rightarrow> jsnum" where
  "js_add (Num a) (Num b) = Num (a + b)"
| "js_add NaN y = NaN"
| "js_add x NaN = NaN"
| "js_add PosInf NegInf = NaN"
| "js_add NegInf PosInf = NaN"
| "js_add PosInf y = PosInf"
| "js_add NegInf y = NegInf"
| "js_add (Num a) y = y"

definition js_sub :: "jsnum \<Rightarrow> jsnum \<Rightarrow> jsnum" where
  "js_sub x y = js_add x (js_neg y)"

fun js_mul :: "jsnum \<Rightarrow> jsnum \<Rightarrow> jsnum" where
  "js_mul (Num a) (Num b) = Num (a * b)"
| "js_mul NaN y = NaN"
| "js_mul x NaN = NaN"
| "js_mul (Num a) y = (if a = 0 then NaN else if 0 < a then y else js_neg y)"
| "js_mul x (Num b) = (if b = 0 then NaN else if 0 < b then x else js_neg x)"
| "js_mul PosInf y = y"
| "js_mul NegInf y = js_neg y"

fun js_div :: "jsnum \<Rightarrow> jsnum \<Rightarrow> jsnum" where
  "js_div (Num a) (Num b) =
     (if b \<noteq> 0 then Num (a / b)
      else if a = 0 then NaN else if 0 < a then PosInf else NegInf)"
| "js_div NaN y = NaN"
| "js_div x NaN = NaN"
| "js_div (Num a) y = Num 0"
| "js_div x (Num b) = (if 0 \<le> b then x else js_neg x)"
| "js_div x y = NaN"

text \<open>\<^verbatim>\<open>Math.max\<close> and \<^verbatim>\<open>Math.min\<close> return \<open>NaN\<close> as soon as one argument is \<open>NaN\<close>.\<close>

fun Math_max :: "jsnum \<Rightarrow> jsnum \<Rightarrow> jsnum" where
  "Math_max (Num a) (Num b) = Num (max a b)"
| "Math_max NaN y = NaN"
| "Math_max x NaN = NaN"
| "Math_max PosInf y = PosInf"
| "Math_max x PosInf = PosInf"
| "Math_max NegInf y = y"
| "Math_max x NegInf = x"

fun Math_min :: "jsnum \<Rightarrow> jsnum \<Rightarrow> jsnum" where
  "Math_min (Num a) (Num b) = Num (min a b)"
| "Math_min NaN y = NaN"
| "Math_min x NaN = NaN"
| "Math_min NegInf y = NegInf"
| "Math_min x NegInf = NegInf"
| "Math_min PosInf y = y"
| "Math_min x PosInf = x"

text \<open>\<^verbatim>\<open>Math.round\<close> rounds to the nearest integer, a half towards \<open>+\<infinity>\<close>.\<close>

definition round_half_up :: "real \<Rightarrow> int" where
  "round_half_up x = \<lfloor>x + 1 / 2\<rfloor>"

fun Math_round :: "jsnum \<Rightarrow> jsnum" where
  "Math_round (Num a) = Num (of_int (round_half_up a))"
| "Math_round x = x"

fun is_finite :: "jsnum \<Rightarrow> bool" where
  "is_finite (Num a) = True"
| "is_finite x = False"

text \<open>Rounding to the nearest integer, a half to the even neighbour.\<close>

definition round_half_even :: "real \<Rightarrow> int" where
  "round_half_even v =
     (let f = \<lfloor>v\<rfloor>
      in if v - of_int f < 1 / 2 then f
         else if 1 / 2 < v - of_int f then f + 1
         else if even f then f else f + 1)"

text \<open>
  The double nearest to a real, a tie going to the even significand: 53 significant bits
  at the binade \<open>\<lfloor>log\<^sub>2 |x|\<rfloor>\<close> of the argument. The exponent range is left
  unbounded (no overflow to \<open>Infinity\<close>, no subnormal numbers): the numbers rounded
  here are pixel counts and their quotients, which stay far inside the range of a double.
  JavaScript's \<^verbatim>\<open>a / b\<close> and \<^verbatim>\<open>a * b\<close> on finite doubles are \<open>binary64 (a / b)\<close>
  and \<open>binary64 (a * b)\<close>; comparisons, \<^verbatim>\<open>Math.min\<close>, \<^verbatim>\<open>Math.round\<close> and a
  doubling are exact.
\<close>

definition binary64 :: "real \<Rightarrow> real" where
  "binary64 x =
     (if x = 0 then 0
      else (let q = 2 powr (of_int (\<lfloor>log 2 \<bar>x\<bar>\<rfloor> - 52))
            in sgn x * (of_int (round_half_even (\<bar>x\<bar> / q)) * q)))"

section \<open>Canvases and the browser's drawing primitives\<close>

text \<open>
  A canvas is its pixel dimensions and its bitmap, a flat sequence of bytes, four
  (R, G, B, A) for each pixel in row-major order. A fresh canvas is transparent black.
\<close>

record canvas =
  width :: nat
  height :: nat
  data :: "nat list"

definition createCanvas :: "nat \<Rightarrow> nat \<Rightarrow> canvas" where
  "createCanvas w h = \<lparr>width = w, height = h, data = replicate (4 * w * h) 0\<rparr>"

text \<open>The errors the code raises itself or lets through from the canvas interface.\<close>

datatype error = NoImageLoaded | IndexSizeError | InvalidStateError

record region =
  rx :: jsnum
  ry :: jsnum
  rw :: jsnum
  rh :: jsnum

text \<open>
  The browser, as far as the program uses it. Both fields are parameters of the model:
  the pixels they produce are not code of this repository.
  \<^item> \<open>smoothing B src r dst i\<close> is byte \<open>i\<close> of the bitmap of \<open>dst\<close> after the
    region \<open>r\<close> of \<open>src\<close> was drawn over the whole of \<open>dst\<close> with
    \<^verbatim>\<open>imageSmoothingQuality = 'high'\<close>;
  \<^item> \<open>stroking B dst overlap i\<close> is byte \<open>i\<close> of \<open>dst\<close> after the guide lines and
    corner marks of \<^verbatim>\<open>addCropMarks\<close> were stroked on it.
\<close>

record browser =
  smoothing :: "canvas \<Rightarrow> region \<Rightarrow> canvas \<Rightarrow> nat \<Rightarrow> 8 word"
  stroking :: "canvas \<Rightarrow> int \<Rightarrow> nat \<Rightarrow> 8 word"

definition repaint :: "canvas \<Rightarrow> (nat \<Rightarrow> 8 word) \<Rightarrow> canvas" where
  "repaint dst f = dst\<lparr>data := map (\<lambda>i. unat (f i)) [0..<4 * width dst * height dst]\<rparr>"

text \<open>
  \<^verbatim>\<open>ctx.drawImage(src, sx, sy, sw, sh, 0, 0, dst.width, dst.height)\<close>, and its short
  form \<^verbatim>\<open>ctx.drawImage(src, 0, 0, dst.width, dst.height)\<close> whose source region is
  the whole source; in every call of the program the destination is the whole destination
  canvas. The canvas interface returns without drawing when an argument is not finite, and
  otherwise throws \<^verbatim>\<open>InvalidStateError\<close> when the source canvas has a zero dimension.
\<close>

definition drawImage :: "browser \<Rightarrow> canvas \<Rightarrow> region \<Rightarrow> canvas \<Rightarrow> error + canvas" where
  "drawImage B src r dst =
     (if \<not> (is_finite (rx r) \<and> is_finite (ry r) \<and> is_finite (rw r) \<and> is_finite (rh r))
      then Inr dst
      else if width src = 0 \<or> height src = 0 then Inl InvalidStateError
      else Inr (repaint dst (smoothing B src r dst)))"

section \<open>The grid splitter\<close>

text \<open>
  The grid configuration, with the fields \<^verbatim>\<open>splitIntoTiles\<close> reads. Counts and the
  overlap are JavaScript numbers holding integers; the page size is a pixel count.
\<close>

record config =
  cols :: int
  rows :: int
  a4WidthPx :: nat
  a4HeightPx :: nat
  overlapPx :: int
  addCropMarks :: bool

text \<open>
  A tile with its metadata. The two display strings \<^verbatim>\<open>position\<close> and \<^verbatim>\<open>label\<close>
  are left out.
\<close>

record tile =
  tcanvas :: canvas
  trow :: int
  tcol :: int
  tindex :: nat
  hasLeftOverlap :: bool
  hasTopOverlap :: bool
  hasRightOverlap :: bool
  hasBottomOverlap :: bool

definition jint :: "int \<Rightarrow> jsnum" where
  "jint k = Num (of_int k)"

definition jnat :: "nat \<Rightarrow> jsnum" where
  "jnat n = Num (of_nat n)"

definition tileContentWidth :: "canvas \<Rightarrow> config \<Rightarrow> jsnum" where
  "tileContentWidth c cfg = js_div (jnat (width c)) (jint (cols cfg))"

definition tileContentHeight :: "canvas \<Rightarrow> config \<Rightarrow> jsnum" where
  "tileContentHeight c cfg = js_div (jnat (height c)) (jint (rows cfg))"

definition overlapSourceX :: "canvas \<Rightarrow> config \<Rightarrow> jsnum" where
  "overlapSourceX c cfg =
     js_div (js_mul (jint (overlapPx cfg)) (tileContentWidth c cfg)) (jnat (a4WidthPx cfg))"

definition overlapSourceY :: "canvas \<Rightarrow> config \<Rightarrow> jsnum" where
  "overlapSourceY c cfg =
     js_div (js_mul (jint (overlapPx cfg)) (tileContentHeight c cfg)) (jnat (a4HeightPx cfg))"

text \<open>The source region of the tile at \<open>(row, col)\<close>: lines 49 to 58 of the loop body.\<close>

definition sourceRegion :: "canvas \<Rightarrow> config \<Rightarrow> int \<Rightarrow> int \<Rightarrow> region" where
  "sourceRegion c cfg row col =
     (let srcX = js_sub (js_mul (jint col) (tileContentWidth c cfg))
                   (if 0 < col then overlapSourceX c cfg else Num 0);
          srcY = js_sub (js_mul (jint row) (tileContentHeight c cfg))
                   (if 0 < row then overlapSourceY c cfg else Num 0);
          srcWidth = js_add (js_add (tileContentWidth c cfg)
                        (if 0 < col then overlapSourceX c cfg else Num 0))
                        (if col < cols cfg - 1 then overlapSourceX c cfg else Num 0);
          srcHeight = js_add (js_add (tileContentHeight c cfg)
                        (if 0 < row then overlapSourceY c cfg else Num 0))
                        (if row < rows cfg - 1 then overlapSourceY c cfg else Num 0);
          srcX = Math_max (Num 0) srcX;
          srcY = Math_max (Num 0) srcY;
          srcWidth = Math_min srcWidth (js_sub (jnat (width c)) srcX);
          srcHeight = Math_min srcHeight (js_sub (jnat (height c)) srcY)
      in \<lparr>rx = srcX, ry = srcY, rw = srcWidth, rh = srcHeight\<rparr>)"

text \<open>
  One iteration of the loop body: a white page, the source region drawn on it, the crop
  marks when enabled, and the metadata.
\<close>

definition whitePage :: "nat \<Rightarrow> nat \<Rightarrow> canvas" where
  "whitePage w h = \<lparr>width = w, height = h, data = replicate (4 * w * h) 255\<rparr>"

definition makeTile :: "browser \<Rightarrow> canvas \<Rightarrow> config \<Rightarrow> int \<Rightarrow> int \<Rightarrow> nat \<Rightarrow> error + tile" where
  "makeTile B c cfg row col tileIndex =
     (case drawImage B c (sourceRegion c cfg row col)
             (whitePage (a4WidthPx cfg) (a4HeightPx cfg)) of
        Inl e \<Rightarrow> Inl e
      | Inr page \<Rightarrow>
          Inr \<lparr>tcanvas = (if addCropMarks cfg
                          then repaint page (stroking B page (overlapPx cfg)) else page),
               trow = row, tcol = col, tindex = tileIndex,
               hasLeftOverlap = (0 < col), hasTopOverlap = (0 < row),
               hasRightOverlap = (col < cols cfg - 1),
               hasBottomOverlap = (row < rows cfg - 1)\<rparr>)"

text \<open>
  The two nested \<^verbatim>\<open>for\<close> loops visit the cells in row-major order; an exception
  of \<^verbatim>\<open>drawImage\<close> ends the call. The optional progress observer of the splitter is
  not modelled.
\<close>

definition gridCells :: "config \<Rightarrow> (int \<times> int) list" where
  "gridCells cfg = concat (map (\<lambda>row. map (\<lambda>col. (row, col)) [0..cols cfg - 1]) [0..rows cfg - 1])"

fun tileLoop :: "browser \<Rightarrow> canvas \<Rightarrow> config \<Rightarrow> (int \<times> int) list \<Rightarrow> tile list \<Rightarrow> nat
                   \<Rightarrow> error + tile list" where
  "tileLoop B c cfg [] tiles tileIndex = Inr tiles"
| "tileLoop B c cfg ((row, col) # cells) tiles tileIndex =
     (case makeTile B c cfg row col tileIndex of
        Inl e \<Rightarrow> Inl e
      | Inr t \<Rightarrow> tileLoop B c cfg cells (tiles @ [t]) (tileIndex + 1))"

definition splitIntoTiles :: "browser \<Rightarrow> canvas \<Rightarrow> config \<Rightarrow> error + tile list" where
  "splitIntoTiles B c cfg = tileLoop B c cfg (gridCells cfg) [] 0"

section \<open>The image processor\<close>

text \<open>
  A decoded image: its natural dimensions, both at least 1 for an image that has loaded,
  and its RGBA bytes. \<^verbatim>\<open>upscale\<close> divides by the two dimensions; the model covers
  decoded images only, and every theorem about \<^verbatim>\<open>upscale\<close> assumes them positive.
  Requested sizes are pixel counts. The algorithm selector is one of three names; any
  other string runs the Lanczos strategy.
\<close>

record image =
  naturalWidth :: nat
  naturalHeight :: nat
  pixels :: "nat list"

datatype algorithm = Bilinear | Bicubic | Lanczos

text \<open>
  A run yields the values handed to the progress observer so far, and the canvas or the
  exception that ended it. \<open>cb\<close> says whether an observer was supplied:
  \<^verbatim>\<open>if (progressCallback) progressCallback(v)\<close>.
\<close>

type_synonym run = "real list \<times> (error + canvas)"

definition report :: "bool \<Rightarrow> real list \<Rightarrow> real \<Rightarrow> real list" where
  "report cb seen v = (if cb then seen @ [v] else seen)"

definition whole :: "canvas \<Rightarrow> region" where
  "whole c = \<lparr>rx = Num 0, ry = Num 0, rw = jnat (width c), rh = jnat (height c)\<rparr>"

subsection \<open>Bilinear\<close>

definition upscaleBilinear :: "browser \<Rightarrow> canvas \<Rightarrow> nat \<Rightarrow> nat \<Rightarrow> bool \<Rightarrow> real list \<Rightarrow> run" where
  "upscaleBilinear B srcCanvas targetWidth targetHeight cb seen =
     (case drawImage B srcCanvas (whole srcCanvas) (createCanvas targetWidth targetHeight) of
        Inl e \<Rightarrow> (seen, Inl e)
      | Inr destCanvas \<Rightarrow> (report cb seen 90, Inr destCanvas))"

subsection \<open>Bicubic: doubling steps of the smoothing primitive\<close>

text \<open>
  The planning loop \<^verbatim>\<open>while (w < targetWidth || h < targetHeight)\<close>. It does not end
  when a dimension starts at 0 below its target, so its result is optional.
\<close>

partial_function (option) planSteps ::
  "nat \<Rightarrow> nat \<Rightarrow> nat \<Rightarrow> nat \<Rightarrow> (nat \<times> nat) list \<Rightarrow> (nat \<times> nat) list option" where
  "planSteps w h targetWidth targetHeight steps =
     (if w < targetWidth \<or> h < targetHeight
      then planSteps (min (w * 2) targetWidth) (min (h * 2) targetHeight) targetWidth targetHeight
             (steps @ [(min (w * 2) targetWidth, min (h * 2) targetHeight)])
      else Some steps)"

definition finalSteps :: "(nat \<times> nat) list \<Rightarrow> nat \<Rightarrow> nat \<Rightarrow> (nat \<times> nat) list" where
  "finalSteps steps targetWidth targetHeight =
     (if steps = [] \<or> fst (last steps) \<noteq> targetWidth \<or> snd (last steps) \<noteq> targetHeight
      then steps @ [(targetWidth, targetHeight)] else steps)"

text \<open>The loop over the planned steps; \<open>n\<close> is \<^verbatim>\<open>steps.length\<close> and \<open>i\<close> the loop index.\<close>

fun bicubicLoop :: "browser \<Rightarrow> bool \<Rightarrow> nat \<Rightarrow> nat \<Rightarrow> (nat \<times> nat) list \<Rightarrow> canvas \<Rightarrow> real list \<Rightarrow> run" where
  "bicubicLoop B cb n i [] currentCanvas seen = (seen, Inr currentCanvas)"
| "bicubicLoop B cb n i ((w, h) # steps) currentCanvas seen =
     (case drawImage B currentCanvas (whole currentCanvas) (createCanvas w h) of
        Inl e \<Rightarrow> (seen, Inl e)
      | Inr destCanvas \<Rightarrow>
          bicubicLoop B cb n (i + 1) steps destCanvas
            (report cb seen (10 + 80 * (real i + 1) / real n)))"

definition upscaleBicubic :: "browser \<Rightarrow> canvas \<Rightarrow> nat \<Rightarrow> nat \<Rightarrow> bool \<Rightarrow> real list \<Rightarrow> run option" where
  "upscaleBicubic B srcCanvas targetWidth targetHeight cb seen =
     (case planSteps (width srcCanvas) (height srcCanvas) targetWidth targetHeight [] of
        None \<Rightarrow> None
      | Some planned \<Rightarrow>
          (let steps = finalSteps planned targetWidth targetHeight
           in Some (bicubicLoop B cb (length steps) 0 steps srcCanvas seen)))"

subsection \<open>Lanczos\<close>

text \<open>The kernel, always called with its default lobe parameter \<open>a = 3\<close>.\<close>

definition lanczos :: "real \<Rightarrow> real" where
  "lanczos x =
     (if x = 0 then 1
      else if x < - 3 \<or> x > 3 then 0
      else (3 * sin (pi * x) * sin (pi * x / 3)) / ((pi * x) * (pi * x)))"

text \<open>Reading a typed array outside its length gives \<^verbatim>\<open>undefined\<close>, a \<open>NaN\<close> in arithmetic.\<close>

definition sample :: "nat list \<Rightarrow> nat \<Rightarrow> jsnum" where
  "sample d i = (if i < length d then Num (real (d ! i)) else NaN)"

definition Utils_clamp :: "jsnum \<Rightarrow> jsnum \<Rightarrow> jsnum \<Rightarrow> jsnum" where
  "Utils_clamp v lo hi = Math_min (Math_max v lo) hi"

text \<open>
  Storing a number in a \<^verbatim>\<open>Uint8ClampedArray\<close>: \<open>NaN\<close> becomes 0, everything else is
  clamped to \<open>[0, 255]\<close> and rounded by \<open>round_half_even\<close>.
\<close>

fun toUint8Clamp :: "jsnum \<Rightarrow> nat" where
  "toUint8Clamp NaN = 0"
| "toUint8Clamp PosInf = 255"
| "toUint8Clamp NegInf = 0"
| "toUint8Clamp (Num v) =
     (if v \<le> 0 then 0 else if 255 \<le> v then 255 else nat (round_half_even v))"

text \<open>
  The two inner loops over the sampling window of one destination pixel: the four
  weighted channel sums and the sum of the weights. \<open>weightSumAt\<close> below is the
  divisor of lines 254 to 257 for the destination pixel \<open>(x, y)\<close>.
\<close>

definition windowCells :: "nat \<Rightarrow> nat \<Rightarrow> real \<Rightarrow> real \<Rightarrow> (int \<times> int) list" where
  "windowCells srcWidth srcHeight srcX srcY =
     (let minX = max 0 (\<lfloor>srcX\<rfloor> - 3);
          maxX = min (int srcWidth - 1) (\<lceil>srcX\<rceil> + 3);
          minY = max 0 (\<lfloor>srcY\<rfloor> - 3);
          maxY = min (int srcHeight - 1) (\<lceil>srcY\<rceil> + 3)
      in concat (map (\<lambda>sy. map (\<lambda>sx. (sy, sx)) [minX..maxX]) [minY..maxY]))"

definition accumulate ::
  "nat list \<Rightarrow> nat \<Rightarrow> real \<Rightarrow> real \<Rightarrow> jsnum \<times> jsnum \<times> jsnum \<times> jsnum \<times> real \<Rightarrow> int \<times> int
     \<Rightarrow> jsnum \<times> jsnum \<times> jsnum \<times> jsnum \<times> real" where
  "accumulate srcData srcWidth srcX srcY acc cell =
     (case acc of (r, g, b, a, weightSum) \<Rightarrow>
      case cell of (sy, sx) \<Rightarrow>
       (let weight = lanczos (srcX - of_int sx) * lanczos (srcY - of_int sy);
            idx = nat ((sy * int srcWidth + sx) * 4)
        in (js_add r (js_mul (sample srcData idx) (Num weight)),
            js_add g (js_mul (sample srcData (idx + 1)) (Num weight)),
            js_add b (js_mul (sample srcData (idx + 2)) (Num weight)),
            js_add a (js_mul (sample srcData (idx + 3)) (Num weight)),
            weightSum + weight)))"

definition lanczosSums ::
  "nat list \<Rightarrow> nat \<Rightarrow> nat \<Rightarrow> real \<Rightarrow> real \<Rightarrow> jsnum \<times> jsnum \<times> jsnum \<times> jsnum \<times> real" where
  "lanczosSums srcData srcWidth srcHeight srcX srcY =
     foldl (accumulate srcData srcWidth srcX srcY) (Num 0, Num 0, Num 0, Num 0, 0)
       (windowCells srcWidth srcHeight srcX srcY)"

definition weightSumAt :: "nat list \<Rightarrow> nat \<Rightarrow> nat \<Rightarrow> nat \<Rightarrow> nat \<Rightarrow> nat \<Rightarrow> nat \<Rightarrow> real" where
  "weightSumAt srcData srcWidth srcHeight targetWidth targetHeight x y =
     (case lanczosSums srcData srcWidth srcHeight
             (real x * (real srcWidth / real targetWidth))
             (real y * (real srcHeight / real targetHeight)) of
        (r, g, b, a, weightSum) \<Rightarrow> weightSum)"

text \<open>Lines 254 to 257: the division by the weight sum is made for every pixel.\<close>

definition channel :: "jsnum \<Rightarrow> real \<Rightarrow> nat" where
  "channel s weightSum =
     toUint8Clamp (Utils_clamp (Math_round (js_div s (Num weightSum))) (Num 0) (Num 255))"

definition lanczosPixel :: "nat list \<Rightarrow> nat \<Rightarrow> nat \<Rightarrow> nat \<Rightarrow> nat \<Rightarrow> nat \<Rightarrow> nat \<Rightarrow> nat list" where
  "lanczosPixel srcData srcWidth srcHeight targetWidth targetHeight x y =
     (let scaleX = real srcWidth / real targetWidth;
          scaleY = real srcHeight / real targetHeight;
          srcX = real x * scaleX;
          srcY = real y * scaleY
      in case lanczosSums srcData srcWidth srcHeight srcX srcY of
           (r, g, b, a, weightSum) \<Rightarrow>
             [channel r weightSum, channel g weightSum, channel b weightSum, channel a weightSum])"

text \<open>
  The chunked outer loop reports after each chunk of \<^verbatim>\<open>Math.ceil(targetHeight / 10)\<close>
  rows. It visits every row once, in order, so the bitmap is laid out row by row below.
\<close>

function chunkLoop :: "nat \<Rightarrow> nat \<Rightarrow> bool \<Rightarrow> real list \<Rightarrow> real list" where
  "chunkLoop startY targetHeight cb seen =
     (if startY < targetHeight
      then (let chunkSize = nat \<lceil>real targetHeight / 10\<rceil>;
                endY = min (startY + chunkSize) targetHeight
            in chunkLoop (startY + chunkSize) targetHeight cb
                 (report cb seen (10 + 80 * real endY / real targetHeight)))
      else seen)"
  by pat_completeness auto
termination
proof (relation "measure (\<lambda>(startY, targetHeight, cb, seen). targetHeight - startY)")
  show "wf (measure (\<lambda>(startY, targetHeight, cb, seen). targetHeight - startY))"
    by simp
next
  fix startY targetHeight :: nat and cb :: bool and seen :: "real list" and x xa
  assume lt: "startY < targetHeight" and x: "x = nat \<lceil>real targetHeight / 10\<rceil>"
  have "0 < real targetHeight / 10" using lt by simp
  then have "0 < \<lceil>real targetHeight / 10\<rceil>" by linarith
  then have "0 < x" using x by simp
  then show "((startY + x, targetHeight, cb, report cb seen (10 + 80 * real xa / real targetHeight)),
              (startY, targetHeight, cb, seen))
             \<in> measure (\<lambda>(startY, targetHeight, cb, seen). targetHeight - startY)"
    using lt by simp
qed

declare chunkLoop.simps [simp del]

text \<open>
  \<^verbatim>\<open>getImageData\<close> throws \<^verbatim>\<open>IndexSizeError\<close> for an empty source canvas and
  \<^verbatim>\<open>createImageData\<close> for an empty target; both come before the first division.
\<close>

definition lanczosResample :: "canvas \<Rightarrow> nat \<Rightarrow> nat \<Rightarrow> bool \<Rightarrow> real list \<Rightarrow> run" where
  "lanczosResample srcCanvas targetWidth targetHeight cb seen =
     (if width srcCanvas = 0 \<or> height srcCanvas = 0 then (seen, Inl IndexSizeError)
      else if targetWidth = 0 \<or> targetHeight = 0 then (seen, Inl IndexSizeError)
      else (chunkLoop 0 targetHeight cb seen,
            Inr \<lparr>width = targetWidth, height = targetHeight,
                 data = concat (map (\<lambda>y. concat (map (\<lambda>x.
                          lanczosPixel (data srcCanvas) (width srcCanvas) (height srcCanvas)
                            targetWidth targetHeight x y) [0..<targetWidth])) [0..<targetHeight])\<rparr>))"

text \<open>The staged loop \<^verbatim>\<open>while (currentScale < targetScale)\<close> of \<^verbatim>\<open>upscaleLanczos\<close>.\<close>

partial_function (option) stagedLoop ::
  "nat \<Rightarrow> nat \<Rightarrow> real \<Rightarrow> int \<Rightarrow> bool \<Rightarrow> canvas \<Rightarrow> real \<Rightarrow> nat \<Rightarrow> real list \<Rightarrow> run option" where
  "stagedLoop srcWidth srcHeight targetScale totalSteps cb currentCanvas currentScale stepNum seen =
     (if currentScale < targetScale
      then (let nextScale = min (currentScale * 2) targetScale;
                nextWidth = nat (round_half_up (binary64 (real srcWidth * nextScale)));
                nextHeight = nat (round_half_up (binary64 (real srcHeight * nextScale)))
            in case lanczosResample currentCanvas nextWidth nextHeight False seen of
                 (seen', Inl e) \<Rightarrow> Some (seen', Inl e)
               | (seen', Inr nextCanvas) \<Rightarrow>
                   stagedLoop srcWidth srcHeight targetScale totalSteps cb nextCanvas nextScale
                     (stepNum + 1)
                     (report cb seen' (10 + 80 * real (stepNum + 1) / real_of_int totalSteps)))
      else Some (seen, Inr currentCanvas))"

text \<open>
  \<^verbatim>\<open>upscaleLanczos\<close>; its \<^verbatim>\<open>Math.log2\<close> is the exact logarithm. For a source
  canvas of width 0 the scale is not finite: with
  \<open>NaN\<close> both comparisons are false and the source canvas itself is returned; with
  \<open>Infinity\<close> the first pass of the staged loop asks for width \<open>round(0 * 2)\<close> and
  \<^verbatim>\<open>getImageData\<close> throws on the empty source.
\<close>

definition upscaleLanczos :: "canvas \<Rightarrow> nat \<Rightarrow> nat \<Rightarrow> bool \<Rightarrow> real list \<Rightarrow> run option" where
  "upscaleLanczos srcCanvas targetWidth targetHeight cb seen =
     (case js_div (jnat targetWidth) (jnat (width srcCanvas)) of
        Num ratio \<Rightarrow>
          (let scale = binary64 ratio
           in if scale \<le> 2
              then Some (lanczosResample srcCanvas targetWidth targetHeight cb seen)
              else stagedLoop (width srcCanvas) (height srcCanvas) scale \<lceil>log 2 scale\<rceil> cb
                     srcCanvas 1 0 seen)
      | NaN \<Rightarrow> Some (seen, Inr srcCanvas)
      | _ \<Rightarrow> Some (seen, Inl IndexSizeError))"

subsection \<open>The entry point\<close>

text \<open>
  \<^verbatim>\<open>upscale\<close>: the processor's \<^verbatim>\<open>originalImage\<close> is an argument, and its
  \<^verbatim>\<open>processedCanvas\<close> is the canvas returned. Drawing the image unscaled on a canvas
  of its own size gives the source canvas its bytes. An exception of the algorithm leaves
  through \<^verbatim>\<open>upscale\<close>, so the last report is skipped.
\<close>

definition runAlgorithm ::
  "browser \<Rightarrow> algorithm \<Rightarrow> canvas \<Rightarrow> nat \<Rightarrow> nat \<Rightarrow> bool \<Rightarrow> real list \<Rightarrow> run option" where
  "runAlgorithm B alg srcCanvas newWidth newHeight cb seen =
     (case alg of
        Bilinear \<Rightarrow> Some (upscaleBilinear B srcCanvas newWidth newHeight cb seen)
      | Bicubic \<Rightarrow> upscaleBicubic B srcCanvas newWidth newHeight cb seen
      | Lanczos \<Rightarrow> upscaleLanczos srcCanvas newWidth newHeight cb seen)"

definition upscale ::
  "browser \<Rightarrow> image option \<Rightarrow> nat \<Rightarrow> nat \<Rightarrow> algorithm \<Rightarrow> bool \<Rightarrow> run option" where
  "upscale B originalImage targetWidth targetHeight alg cb =
     (case originalImage of
        None \<Rightarrow> Some ([], Inl NoImageLoaded)
      | Some img \<Rightarrow>
          (let srcWidth = naturalWidth img;
               srcHeight = naturalHeight img;
               scale = min (binary64 (real targetWidth / real srcWidth))
                         (binary64 (real targetHeight / real srcHeight));
               newWidth = nat (round_half_up (binary64 (real srcWidth * scale)));
               newHeight = nat (round_half_up (binary64 (real srcHeight * scale)));
               seen = report cb [] 0;
               srcCanvas = \<lparr>width = srcWidth, height = srcHeight, data = pixels img\<rparr>;
               seen = report cb seen 10
           in case runAlgorithm B alg srcCanvas newWidth newHeight cb seen of
                None \<Rightarrow> None
              | Some (seen', Inl e) \<Rightarrow> Some (seen', Inl e)
              | Some (seen', Inr result) \<Rightarrow> Some (report cb seen' 100, Inr result)))"

text \<open>What a run handed to the observer, and the canvas it returned, if any.\<close>

definition reported :: "run option \<Rightarrow> real list" where
  "reported r = (case r of None \<Rightarrow> [] | Some (seen, res) \<Rightarrow> seen)"

definition returned :: "run option \<Rightarrow> canvas option" where
  "returned r = (case r of Some (seen, Inr c) \<Rightarrow> Some c | _ \<Rightarrow> None)"

section \<open>The specification's words, and sample inputs\<close>

text \<open>The comparison \<^verbatim>\<open><\<close> of JavaScript: false as soon as one side is \<open>NaN\<close>.\<close>

definition js_lt :: "jsnum \<Rightarrow> jsnum \<Rightarrow> bool" where
  "js_lt x y =
     (case x of
        Num a \<Rightarrow> (case y of Num b \<Rightarrow> a < b | PosInf \<Rightarrow> True | _ \<Rightarrow> False)
      | NegInf \<Rightarrow> (case y of Num b \<Rightarrow> True | PosInf \<Rightarrow> True | _ \<Rightarrow> False)
      | _ \<Rightarrow> False)"

subsection \<open>The tile rectangle as the specification derives it\<close>

text \<open>
  Steps 1 to 4 of the specification's derivation of a tile's source rectangle, over the
  reals: the content size of a tile, the overlap in source space, the rectangle with its
  overlap expansion, and the clamping.
\<close>

definition specContentWidth :: "canvas \<Rightarrow> config \<Rightarrow> real" where
  "specContentWidth c cfg = real (width c) / real_of_int (cols cfg)"

definition specContentHeight :: "canvas \<Rightarrow> config \<Rightarrow> real" where
  "specContentHeight c cfg = real (height c) / real_of_int (rows cfg)"

definition specOverlapX :: "canvas \<Rightarrow> config \<Rightarrow> real" where
  "specOverlapX c cfg =
     real_of_int (overlapPx cfg) * (specContentWidth c cfg / real (a4WidthPx cfg))"

definition specOverlapY :: "canvas \<Rightarrow> config \<Rightarrow> real" where
  "specOverlapY c cfg =
     real_of_int (overlapPx cfg) * (specContentHeight c cfg / real (a4HeightPx cfg))"

definition specSrcX :: "canvas \<Rightarrow> config \<Rightarrow> int \<Rightarrow> real" where
  "specSrcX c cfg col =
     max 0 (if 0 < col then real_of_int col * specContentWidth c cfg - specOverlapX c cfg
            else real_of_int col * specContentWidth c cfg)"

definition specSrcY :: "canvas \<Rightarrow> config \<Rightarrow> int \<Rightarrow> real" where
  "specSrcY c cfg row =
     max 0 (if 0 < row then real_of_int row * specContentHeight c cfg - specOverlapY c cfg
            else real_of_int row * specContentHeight c cfg)"

definition specSrcWidth :: "canvas \<Rightarrow> config \<Rightarrow> int \<Rightarrow> real" where
  "specSrcWidth c cfg col =
     min (specContentWidth c cfg + (if 0 < col then specOverlapX c cfg else 0)
            + (if col < cols cfg - 1 then specOverlapX c cfg else 0))
         (real (width c) - specSrcX c cfg col)"

definition specSrcHeight :: "canvas \<Rightarrow> config \<Rightarrow> int \<Rightarrow> real" where
  "specSrcHeight c cfg row =
     min (specContentHeight c cfg + (if 0 < row then specOverlapY c cfg else 0)
            + (if row < rows cfg - 1 then specOverlapY c cfg else 0))
         (real (height c) - specSrcY c cfg row)"

subsection \<open>The staged Lanczos strategy as the specification describes it\<close>

text \<open>
  A given number of doubling passes: each pass resamples the output of the pass before it
  (the first one the source) with the Lanczos kernel, to the size that
  \<open>nextScale = min(currentScale * 2, targetScale)\<close> gives from the source dimensions.
  \<open>passes\<close> counts the passes still to run.
\<close>

fun stagedPasses ::
  "nat \<Rightarrow> nat \<Rightarrow> real \<Rightarrow> int \<Rightarrow> bool \<Rightarrow> nat \<Rightarrow> canvas \<Rightarrow> real \<Rightarrow> nat \<Rightarrow> real list \<Rightarrow> run" where
  "stagedPasses srcWidth srcHeight targetScale totalSteps cb 0 previous currentScale stepNum seen =
     (seen, Inr previous)"
| "stagedPasses srcWidth srcHeight targetScale totalSteps cb (Suc passes) previous currentScale
     stepNum seen =
     (let nextScale = min (currentScale * 2) targetScale
      in case lanczosResample previous (nat (round_half_up (binary64 (real srcWidth * nextScale))))
                (nat (round_half_up (binary64 (real srcHeight * nextScale)))) False seen of
           (seen', Inl e) \<Rightarrow> (seen', Inl e)
         | (seen', Inr output) \<Rightarrow>
             stagedPasses srcWidth srcHeight targetScale totalSteps cb passes output nextScale
               (stepNum + 1)
               (report cb seen' (10 + 80 * real (stepNum + 1) / real_of_int totalSteps)))"

subsection \<open>The dimensions \<^verbatim>\<open>upscale\<close> fits to the source\<close>

text \<open>
  Lines 49 to 51 of \<^verbatim>\<open>upscale\<close> by name: the requested size is fitted to the aspect
  ratio of the source before any algorithm runs.
\<close>

definition fitScale :: "image \<Rightarrow> nat \<Rightarrow> nat \<Rightarrow> real" where
  "fitScale img targetWidth targetHeight =
     min (binary64 (real targetWidth / real (naturalWidth img)))
         (binary64 (real targetHeight / real (naturalHeight img)))"

definition fitWidth :: "image \<Rightarrow> nat \<Rightarrow> nat \<Rightarrow> nat" where
  "fitWidth img targetWidth targetHeight =
     nat (round_half_up (binary64 (real (naturalWidth img) * fitScale img targetWidth targetHeight)))"

definition fitHeight :: "image \<Rightarrow> nat \<Rightarrow> nat \<Rightarrow> nat" where
  "fitHeight img targetWidth targetHeight =
     nat (round_half_up (binary64 (real (naturalHeight img) * fitScale img targetWidth targetHeight)))"

text \<open>
  The scale \<^verbatim>\<open>upscaleLanczos\<close> derives from the fitted width, and the dimensions of
  the canvas each path ends with: the staged Lanczos strategy (a scale above 2) computes
  its last pass from that scale and the source dimensions, every other path allocates the
  fitted dimensions.
\<close>

definition lanczosScale :: "image \<Rightarrow> nat \<Rightarrow> nat \<Rightarrow> real" where
  "lanczosScale img targetWidth targetHeight =
     binary64 (real (fitWidth img targetWidth targetHeight) / real (naturalWidth img))"

definition outputWidth :: "image \<Rightarrow> nat \<Rightarrow> nat \<Rightarrow> algorithm \<Rightarrow> nat" where
  "outputWidth img targetWidth targetHeight alg =
     (if alg = Lanczos \<and> 2 < lanczosScale img targetWidth targetHeight
      then nat (round_half_up (binary64 (real (naturalWidth img)
                                          * lanczosScale img targetWidth targetHeight)))
      else fitWidth img targetWidth targetHeight)"

definition outputHeight :: "image \<Rightarrow> nat \<Rightarrow> nat \<Rightarrow> algorithm \<Rightarrow> nat" where
  "outputHeight img targetWidth targetHeight alg =
     (if alg = Lanczos \<and> 2 < lanczosScale img targetWidth targetHeight
      then nat (round_half_up (binary64 (real (naturalHeight img)
                                          * lanczosScale img targetWidth targetHeight)))
      else fitHeight img targetWidth targetHeight)"

text \<open>
  The browser's smoothing copies a canvas drawn whole onto a fresh canvas of its own size:
  no pixel is interpolated. The program does not decide this; it is a property a browser
  may or may not have.
\<close>

definition sameSizeCopy :: "browser \<Rightarrow> canvas \<Rightarrow> bool" where
  "sameSizeCopy B src =
     (\<forall>i < length (data src).
        unat (smoothing B src (whole src) (createCanvas (width src) (height src)) i) = data src ! i)"

text \<open>The size of the returned bitmap in bytes, and the returned dimensions.\<close>

definition bufferLength :: "run option \<Rightarrow> nat option" where
  "bufferLength r = map_option (\<lambda>c. length (data c)) (returned r)"

definition dimensions :: "run option \<Rightarrow> (nat \<times> nat) option" where
  "dimensions r = map_option (\<lambda>c. (width c, height c)) (returned r)"

subsection \<open>Sample inputs\<close>

text \<open>A browser whose primitives paint transparent black, for the concrete runs.\<close>

definition plainBrowser :: browser where
  "plainBrowser = \<lparr>smoothing = (\<lambda>src r dst i. 0), stroking = (\<lambda>dst overlap i. 0)\<rparr>"

text \<open>A browser whose smoothing hands back the bytes of the canvas drawn.\<close>

definition copyBrowser :: browser where
  "copyBrowser = \<lparr>smoothing = (\<lambda>src r dst i. of_nat (data src ! i)),
     stroking = (\<lambda>dst overlap i. 0)\<rparr>"

text \<open>The grid of the specification's example: 3 by 2 pages at 300 dpi, 118 pixels of overlap.\<close>

definition gridSpecExample :: config where
  "gridSpecExample = \<lparr>cols = 3, rows = 2, a4WidthPx = 2480, a4HeightPx = 3508,
     overlapPx = 118, addCropMarks = True\<rparr>"

definition gridNegativeOverlap :: config where
  "gridNegativeOverlap = \<lparr>cols = 1, rows = 1, a4WidthPx = 1, a4HeightPx = 1,
     overlapPx = - 1, addCropMarks = False\<rparr>"

definition gridNoColumns :: config where
  "gridNoColumns = \<lparr>cols = 0, rows = 2, a4WidthPx = 1, a4HeightPx = 1,
     overlapPx = 1, addCropMarks = True\<rparr>"

definition gridNoOverlap :: config where
  "gridNoOverlap = \<lparr>cols = 1, rows = 2, a4WidthPx = 1, a4HeightPx = 1,
     overlapPx = 0, addCropMarks = False\<rparr>"

definition gridOverlap :: config where
  "gridOverlap = \<lparr>cols = 1, rows = 2, a4WidthPx = 1, a4HeightPx = 1,
     overlapPx = 1, addCropMarks = True\<rparr>"

definition blackPage :: canvas where
  "blackPage = \<lparr>width = 1, height = 1, data = [0, 0, 0, 0]\<rparr>"

definition upperTile :: tile where
  "upperTile = \<lparr>tcanvas = blackPage, trow = 0, tcol = 0, tindex = 0,
     hasLeftOverlap = False, hasTopOverlap = False, hasRightOverlap = False,
     hasBottomOverlap = True\<rparr>"

definition lowerTile :: tile where
  "lowerTile = \<lparr>tcanvas = blackPage, trow = 1, tcol = 0, tindex = 1,
     hasLeftOverlap = False, hasTopOverlap = True, hasRightOverlap = False,
     hasBottomOverlap = False\<rparr>"

text \<open>Small opaque images: one pixel, two pixels side by side, three pixels side by side.\<close>

definition onePixel :: image where
  "onePixel = \<lparr>naturalWidth = 1, naturalHeight = 1, pixels = [10, 20, 30, 255]\<rparr>"

definition twoPixels :: image where
  "twoPixels = \<lparr>naturalWidth = 2, naturalHeight = 1,
     pixels = [10, 20, 30, 255, 40, 50, 60, 255]\<rparr>"


text \<open>A black image of 11 by 22 pixels, and a black canvas of 6 by 27.\<close>

definition tallImage :: image where
  "tallImage = \<lparr>naturalWidth = 11, naturalHeight = 22, pixels = replicate 968 0\<rparr>"

definition tallCanvas :: canvas where
  "tallCanvas = createCanvas 6 27"

section \<open>Properties of the grid splitter\<close>

subsection \<open>Arithmetic on finite numbers\<close>

lemma js_sub_Num [simp]: "js_sub (Num a) (Num b) = Num (a - b)"
  by (simp add: js_sub_def)

lemma width_createCanvas [simp]: "width (createCanvas w h) = w"
  by (simp add: createCanvas_def)

lemma height_createCanvas [simp]: "height (createCanvas w h) = h"
  by (simp add: createCanvas_def)

lemma upto_0_1: "[0..1::int] = [0, 1]"
  by (simp add: upto.simps)

lemma upt_0_4: "[0..<4] = [0, 1, 2, 3]"
  by (simp add: upt_rec)

lemma tileContentWidth_Num:
  "cols cfg \<noteq> 0 \<Longrightarrow> tileContentWidth c cfg = Num (real (width c) / real_of_int (cols cfg))"
  by (simp add: tileContentWidth_def jnat_def jint_def)

lemma tileContentHeight_Num:
  "rows cfg \<noteq> 0 \<Longrightarrow> tileContentHeight c cfg = Num (real (height c) / real_of_int (rows cfg))"
  by (simp add: tileContentHeight_def jnat_def jint_def)

lemma overlapSourceX_Num:
  "cols cfg \<noteq> 0 \<Longrightarrow> 0 < a4WidthPx cfg \<Longrightarrow>
   overlapSourceX c cfg =
     Num (real_of_int (overlapPx cfg) * (real (width c) / real_of_int (cols cfg))
          / real (a4WidthPx cfg))"
  by (simp add: overlapSourceX_def tileContentWidth_Num jnat_def jint_def)

lemma overlapSourceY_Num:
  "rows cfg \<noteq> 0 \<Longrightarrow> 0 < a4HeightPx cfg \<Longrightarrow>
   overlapSourceY c cfg =
     Num (real_of_int (overlapPx cfg) * (real (height c) / real_of_int (rows cfg))
          / real (a4HeightPx cfg))"
  by (simp add: overlapSourceY_def tileContentHeight_Num jnat_def jint_def)

lemma sourceRegion_finite:
  assumes "cols cfg \<noteq> 0" "rows cfg \<noteq> 0" "0 < a4WidthPx cfg" "0 < a4HeightPx cfg"
  shows "sourceRegion c cfg row col =
           \<lparr>rx = Num (specSrcX c cfg col), ry = Num (specSrcY c cfg row),
            rw = Num (specSrcWidth c cfg col), rh = Num (specSrcHeight c cfg row)\<rparr>"
  using assms
  by (simp add: sourceRegion_def Let_def tileContentWidth_Num tileContentHeight_Num
      overlapSourceX_Num overlapSourceY_Num jint_def jnat_def
      specSrcX_def specSrcY_def specSrcWidth_def specSrcHeight_def
      specContentWidth_def specContentHeight_def specOverlapX_def specOverlapY_def)

lemmas tiler_defs = upto_0_1 upt_0_4 splitIntoTiles_def gridCells_def makeTile_def
  drawImage_def sourceRegion_def tileContentWidth_def tileContentHeight_def
  overlapSourceX_def overlapSourceY_def jnat_def jint_def Let_def whitePage_def
  repaint_def plainBrowser_def

subsection \<open>The loop over the cells\<close>

lemma makeTile_Inr:
  assumes "0 < width c" "0 < height c"
  shows "\<exists>t. makeTile B c cfg row col k = Inr t"
  using assms by (simp add: makeTile_def drawImage_def)

lemma makeTile_meta:
  assumes "makeTile B c cfg row col k = Inr t"
  shows "trow t = row \<and> tcol t = col \<and> tindex t = k
       \<and> hasLeftOverlap t = (0 < col) \<and> hasTopOverlap t = (0 < row)
       \<and> hasRightOverlap t = (col < cols cfg - 1)
       \<and> hasBottomOverlap t = (row < rows cfg - 1)"
  using assms by (auto simp add: makeTile_def split: sum.splits)

lemma tileLoop_Inr:
  assumes "0 < width c" "0 < height c"
  shows "\<exists>ts. tileLoop B c cfg cells tiles k = Inr ts
           \<and> length ts = length tiles + length cells"
proof (induction cells arbitrary: tiles k)
  case Nil
  show ?case by simp
next
  case (Cons cell cells)
  obtain row col where cell: "cell = (row, col)" by (cases cell)
  obtain t where t: "makeTile B c cfg row col k = Inr t"
    using makeTile_Inr [OF assms] by blast
  from Cons.IH [of "tiles @ [t]" "k + 1"] show ?case
    by (simp add: cell t)
qed

lemma tileLoop_members:
  assumes "tileLoop B c cfg cells tiles k = Inr ts" "t \<in> set ts"
  shows "t \<in> set tiles
       \<or> (\<exists>row col j. (row, col) \<in> set cells \<and> makeTile B c cfg row col j = Inr t)"
  using assms
proof (induction cells arbitrary: tiles k)
  case Nil
  then show ?case by simp
next
  case (Cons cell cells)
  obtain row col where cell: "cell = (row, col)" by (cases cell)
  from Cons.prems(1) obtain t' where t': "makeTile B c cfg row col k = Inr t'"
    and rest: "tileLoop B c cfg cells (tiles @ [t']) (k + 1) = Inr ts"
    by (auto simp add: cell split: sum.splits)
  from Cons.IH [OF rest Cons.prems(2)] show ?case
    using t' by (auto simp add: cell)
qed

lemma length_gridCells: "length (gridCells cfg) = nat (rows cfg) * nat (cols cfg)"
proof -
  have "length (concat (map (\<lambda>row. map (\<lambda>col. (row, col)) [0..m]) rs)) = length rs * nat (m + 1)"
    for m :: int and rs :: "int list"
    by (induction rs) simp_all
  then show ?thesis by (simp add: gridCells_def)
qed

lemma set_gridCells:
  "(row, col) \<in> set (gridCells cfg)
     \<longleftrightarrow> 0 \<le> row \<and> row < rows cfg \<and> 0 \<le> col \<and> col < cols cfg"
  by (force simp add: gridCells_def image_iff)

subsection \<open>Validation of the grid (claim C4)\<close>

text \<open>
  Claim C4 says that the tile operation fails with an InvalidInput error, producing no
  tiles, whenever the grid has fewer than one column or row, a negative overlap or an
  overlap larger than a tile's content, and does not fail otherwise. The code validates
  nothing. With an overlap of \<open>-1\<close> pixel on a one-page grid it returns the one tile:
\<close>

theorem splitIntoTiles_validation_counterexample:
  "map_sum id (map tindex) (splitIntoTiles plainBrowser (createCanvas 2 2) gridNegativeOverlap)
     = Inr [0]"
  by (simp add: tiler_defs gridNegativeOverlap_def)

text \<open>
  C4 as amended: over a non-empty source the tile operation never fails, whatever the
  grid; it returns one tile for each cell, \<open>rows \<times> columns\<close> of them, which is none
  at all when the grid has fewer than one column or fewer than one row.
\<close>

theorem splitIntoTiles_no_validation:
  assumes "0 < width c" "0 < height c"
  shows "\<exists>tiles. splitIntoTiles B c cfg = Inr tiles
           \<and> length tiles = nat (rows cfg) * nat (cols cfg)"
  using tileLoop_Inr [OF assms, of B cfg "gridCells cfg" "[]" 0]
  by (simp add: splitIntoTiles_def length_gridCells)

theorem splitIntoTiles_no_validation_witness:
  "0 < width (createCanvas 2 2) \<and> 0 < height (createCanvas 2 2)
   \<and> splitIntoTiles plainBrowser (createCanvas 2 2) gridNoColumns = Inr []"
  using splitIntoTiles_no_validation [of "createCanvas 2 2" plainBrowser gridNoColumns]
  by (auto simp add: gridNoColumns_def)

subsection \<open>The source rectangle of a tile (claim C5)\<close>

text \<open>
  Claim C5: for every tile at \<open>(row, col)\<close> of the grid, the source rectangle the code
  computes is the one the specification derives: \<open>srcX\<close> is \<open>col \<times> tileContentWidth\<close>
  less the overlap exactly when \<open>col > 0\<close>, \<open>srcWidth\<close> is the content width plus the
  overlap once for the left edge when \<open>col > 0\<close> and once for the right edge when
  \<open>col < columns - 1\<close>, likewise for \<open>srcY\<close> and \<open>srcHeight\<close>; then the origin is
  clamped to be non-negative and the size so that the rectangle stays inside the source.
\<close>

theorem sourceRegion_as_specified:
  assumes "0 \<le> row" "row < rows cfg" "0 \<le> col" "col < cols cfg"
    and "0 < a4WidthPx cfg" "0 < a4HeightPx cfg"
  shows "sourceRegion c cfg row col =
           \<lparr>rx = Num (specSrcX c cfg col), ry = Num (specSrcY c cfg row),
            rw = Num (specSrcWidth c cfg col), rh = Num (specSrcHeight c cfg row)\<rparr>
         \<and> 0 \<le> specSrcX c cfg col \<and> 0 \<le> specSrcY c cfg row
         \<and> specSrcX c cfg col + specSrcWidth c cfg col \<le> real (width c)
         \<and> specSrcY c cfg row + specSrcHeight c cfg row \<le> real (height c)"
proof -
  have nz: "cols cfg \<noteq> 0" "rows cfg \<noteq> 0" using assms by auto
  have bounds: "0 \<le> specSrcX c cfg col" "0 \<le> specSrcY c cfg row"
    "specSrcX c cfg col + specSrcWidth c cfg col \<le> real (width c)"
    "specSrcY c cfg row + specSrcHeight c cfg row \<le> real (height c)"
    by (simp_all add: specSrcX_def specSrcY_def specSrcWidth_def specSrcHeight_def)
  show ?thesis
    using sourceRegion_finite [OF nz assms(5,6)] bounds by simp
qed

text \<open>
  The specification's example: on a 6000 by 4000 source, the tile in row 0, column 1
  starts \<open>2950/31\<close> source pixels left of its column boundary at 2000.
\<close>

theorem sourceRegion_as_specified_witness:
  "(0::int) \<le> 0 \<and> 0 < rows gridSpecExample \<and> (0::int) \<le> 1 \<and> 1 < cols gridSpecExample
   \<and> 0 < a4WidthPx gridSpecExample \<and> 0 < a4HeightPx gridSpecExample
   \<and> sourceRegion (createCanvas 6000 4000) gridSpecExample 0 1
       = \<lparr>rx = Num (59050 / 31), ry = Num 0, rw = Num (67900 / 31),
          rh = Num (1813000 / 877)\<rparr>"
proof -
  have h: "(0::int) \<le> 0" "0 < rows gridSpecExample" "(0::int) \<le> 1" "1 < cols gridSpecExample"
    "0 < a4WidthPx gridSpecExample" "0 < a4HeightPx gridSpecExample"
    by (simp_all add: gridSpecExample_def)
  have vals: "specSrcX (createCanvas 6000 4000) gridSpecExample 1 = 59050 / 31"
    "specSrcY (createCanvas 6000 4000) gridSpecExample 0 = 0"
    "specSrcWidth (createCanvas 6000 4000) gridSpecExample 1 = 67900 / 31"
    "specSrcHeight (createCanvas 6000 4000) gridSpecExample 0 = 1813000 / 877"
    by (simp_all add: specSrcX_def specSrcY_def specSrcWidth_def specSrcHeight_def
        specContentWidth_def specContentHeight_def specOverlapX_def specOverlapY_def
        gridSpecExample_def)
  from sourceRegion_as_specified [OF h, of "createCanvas 6000 4000"] show ?thesis
    using h vals by simp
qed

subsection \<open>Overlap flags and the top edge (claim C7)\<close>

lemma specSrcY_top:
  assumes "0 < rows cfg" "0 < a4HeightPx cfg" "0 \<le> overlapPx cfg" "0 \<le> row"
  shows "specSrcY c cfg row \<le> real_of_int row * specContentHeight c cfg"
proof -
  have "0 \<le> specContentHeight c cfg" using assms by (simp add: specContentHeight_def)
  moreover have "0 \<le> specOverlapY c cfg"
    using assms by (simp add: specOverlapY_def specContentHeight_def)
  ultimately show ?thesis using assms by (simp add: specSrcY_def)
qed

lemma specSrcY_top_strict:
  assumes "0 < rows cfg" "0 < a4HeightPx cfg" "0 < overlapPx cfg" "0 < row" "0 < height c"
  shows "specSrcY c cfg row < real_of_int row * specContentHeight c cfg"
proof -
  have h: "0 < specContentHeight c cfg" using assms by (simp add: specContentHeight_def)
  moreover have "0 < specOverlapY c cfg"
    using assms h by (simp add: specOverlapY_def)
  ultimately show ?thesis using assms by (simp add: specSrcY_def)
qed

text \<open>
  Claim C7 says that a tile outside row 0 has \<open>hasTopOverlap\<close> set and a source
  rectangle whose top edge is strictly less than \<open>row \<times> tileContentHeight\<close>. With an
  overlap of 0 pixels, which the grid specification allows, the tile in row 1 has the flag
  set but its top edge is exactly \<open>row \<times> tileContentHeight\<close>:
\<close>

theorem tile_edges_counterexample:
  "map_sum id (map hasTopOverlap) (splitIntoTiles plainBrowser (createCanvas 2 2) gridNoOverlap)
     = Inr [False, True]
   \<and> \<not> js_lt (ry (sourceRegion (createCanvas 2 2) gridNoOverlap 1 0))
            (js_mul (jint 1) (tileContentHeight (createCanvas 2 2) gridNoOverlap))"
  by (simp add: tiler_defs gridNoOverlap_def js_lt_def)

text \<open>
  C7 as amended: for every grid with a non-negative overlap over a non-empty source and
  every produced tile, if the row index is not 0 then \<open>hasTopOverlap\<close> is true and the top
  edge of the source rectangle is at most \<open>row \<times> tileContentHeight\<close>, strictly less when
  the overlap is positive; if the row index is 0 then \<open>hasTopOverlap\<close> is false and the
  top edge is exactly 0. The other three flags are set exactly on the edges that are not at
  the boundary of the grid.
\<close>

theorem tile_edges:
  assumes split: "splitIntoTiles B c cfg = Inr tiles" and t: "t \<in> set tiles"
    and page: "0 < a4WidthPx cfg" "0 < a4HeightPx cfg"
    and ov: "0 \<le> overlapPx cfg" and src: "0 < height c"
  shows "ry (sourceRegion c cfg (trow t) (tcol t)) = Num (specSrcY c cfg (trow t))
       \<and> tileContentHeight c cfg = Num (specContentHeight c cfg)
       \<and> (trow t \<noteq> 0 \<longrightarrow> hasTopOverlap t
            \<and> specSrcY c cfg (trow t) \<le> real_of_int (trow t) * specContentHeight c cfg
            \<and> (0 < overlapPx cfg \<longrightarrow>
                 specSrcY c cfg (trow t) < real_of_int (trow t) * specContentHeight c cfg))
       \<and> (trow t = 0 \<longrightarrow> \<not> hasTopOverlap t \<and> specSrcY c cfg (trow t) = 0)
       \<and> hasLeftOverlap t = (tcol t \<noteq> 0)
       \<and> hasRightOverlap t = (tcol t \<noteq> cols cfg - 1)
       \<and> hasBottomOverlap t = (trow t \<noteq> rows cfg - 1)"
proof -
  from tileLoop_members [OF split [unfolded splitIntoTiles_def] t]
  obtain row col j where cell: "(row, col) \<in> set (gridCells cfg)"
    and mk: "makeTile B c cfg row col j = Inr t" by auto
  from cell have rc: "0 \<le> row" "row < rows cfg" "0 \<le> col" "col < cols cfg"
    by (simp_all add: set_gridCells)
  note meta = makeTile_meta [OF mk]
  have nz: "cols cfg \<noteq> 0" "rows cfg \<noteq> 0" using rc by auto
  have reg: "ry (sourceRegion c cfg (trow t) (tcol t)) = Num (specSrcY c cfg (trow t))"
    by (simp add: sourceRegion_finite [OF nz page])
  have tch: "tileContentHeight c cfg = Num (specContentHeight c cfg)"
    using nz by (simp add: tileContentHeight_Num specContentHeight_def)
  have rows_pos: "0 < rows cfg" using rc by simp
  have le: "specSrcY c cfg row \<le> real_of_int row * specContentHeight c cfg"
    by (rule specSrcY_top [OF rows_pos page(2) ov rc(1)])
  have lt: "specSrcY c cfg row < real_of_int row * specContentHeight c cfg"
    if "0 < overlapPx cfg" "row \<noteq> 0"
    using specSrcY_top_strict [OF rows_pos page(2) that(1) _ src, of row] that(2) rc(1) by simp
  have zero: "specSrcY c cfg 0 = 0" by (simp add: specSrcY_def)
  show ?thesis
    using meta rc reg tch le lt zero by auto
qed

lemma split_gridOverlap:
  "splitIntoTiles plainBrowser (createCanvas 2 2) gridOverlap = Inr [upperTile, lowerTile]"
  by (simp add: tiler_defs gridOverlap_def upperTile_def lowerTile_def blackPage_def)

theorem tile_edges_witness:
  "splitIntoTiles plainBrowser (createCanvas 2 2) gridOverlap = Inr [upperTile, lowerTile]
   \<and> hasTopOverlap lowerTile
   \<and> ry (sourceRegion (createCanvas 2 2) gridOverlap 1 0) = Num 0
   \<and> tileContentHeight (createCanvas 2 2) gridOverlap = Num 1"
proof -
  have cfg: "0 < a4WidthPx gridOverlap" "0 < a4HeightPx gridOverlap" "0 \<le> overlapPx gridOverlap"
    by (simp_all add: gridOverlap_def)
  have src: "0 < height (createCanvas 2 2)" by simp
  have mem: "lowerTile \<in> set [upperTile, lowerTile]" by simp
  have vals: "specSrcY (createCanvas 2 2) gridOverlap 1 = 0"
    "specContentHeight (createCanvas 2 2) gridOverlap = 1"
    by (simp_all add: specSrcY_def specContentHeight_def specOverlapY_def gridOverlap_def)
  from tile_edges [OF split_gridOverlap mem cfg src] show ?thesis
    using split_gridOverlap vals by (simp add: lowerTile_def)
qed

section \<open>Rounding to doubles\<close>

lemma binary64_0 [simp]: "binary64 0 = 0"
  by (simp add: binary64_def)

lemma round_half_even_near: "\<bar>of_int (round_half_even z) - z\<bar> \<le> 1 / 2"
proof -
  have "of_int \<lfloor>z\<rfloor> \<le> z" "z < of_int \<lfloor>z\<rfloor> + 1" by linarith+
  then show ?thesis by (auto simp add: round_half_even_def Let_def)
qed

lemma round_half_even_ge: "of_int k \<le> z \<Longrightarrow> k \<le> round_half_even z"
proof -
  assume "of_int k \<le> z"
  then have "k \<le> \<lfloor>z\<rfloor>" by (simp add: le_floor_iff)
  then show ?thesis by (auto simp add: round_half_even_def Let_def)
qed

lemma binary64_pos:
  assumes "0 < x" "q = 2 powr (of_int (\<lfloor>log 2 x\<rfloor> - 52))"
  shows "binary64 x = of_int (round_half_even (x / q)) * q"
  using assms by (simp add: binary64_def Let_def)

lemma binade_le:
  assumes "0 < x"
  shows "(2::real) powr (of_int \<lfloor>log 2 x\<rfloor>) \<le> x"
proof -
  have "(2::real) powr (of_int \<lfloor>log 2 x\<rfloor>) \<le> 2 powr (log 2 x)"
    by (intro powr_mono) simp_all
  then show ?thesis using assms by simp
qed

lemma quantum:
  "(2::real) powr (of_int (e - 52)) = 2 powr (of_int e) / 2 ^ 52"
proof -
  have "(2::real) powr (of_int (e - 52)) = 2 powr (of_int e - 52)" by simp
  also have "\<dots> = 2 powr (of_int e) / 2 powr (52::real)" by (rule powr_diff)
  also have "2 powr (52::real) = (2::real) ^ 52" by (simp add: powr_numeral)
  finally show ?thesis .
qed

lemma binary64_error:
  assumes "0 < x"
  shows "\<bar>binary64 x - x\<bar> \<le> x / 2 ^ 53"
proof -
  define q where "q = (2::real) powr (of_int (\<lfloor>log 2 x\<rfloor> - 52))"
  have q: "0 < q" by (simp add: q_def)
  have "binary64 x - x = (of_int (round_half_even (x / q)) - x / q) * q"
    using q by (simp add: binary64_pos [OF assms q_def] field_simps)
  then have "\<bar>binary64 x - x\<bar> = \<bar>of_int (round_half_even (x / q)) - x / q\<bar> * q"
    using q by (simp add: abs_mult)
  also have "\<dots> \<le> 1 / 2 * q"
    using q round_half_even_near [of "x / q"] by (intro mult_right_mono) simp_all
  also have "q = (2::real) powr (of_int \<lfloor>log 2 x\<rfloor>) / 2 ^ 52" unfolding q_def by (rule quantum)
  also have "1 / 2 * (2 powr (of_int \<lfloor>log 2 x\<rfloor>) / 2 ^ 52) \<le> 1 / 2 * (x / 2 ^ 52)"
    using binade_le [OF assms] by (simp add: divide_right_mono)
  also have "\<dots> = x / 2 ^ 53" by simp
  finally show ?thesis .
qed

lemma binary64_ge_binade:
  assumes "0 < x"
  shows "2 powr (of_int \<lfloor>log 2 x\<rfloor>) \<le> binary64 x"
proof -
  define q where "q = (2::real) powr (of_int (\<lfloor>log 2 x\<rfloor> - 52))"
  have q: "0 < q" by (simp add: q_def)
  have qq: "q * 2 ^ 52 = 2 powr (of_int \<lfloor>log 2 x\<rfloor>)" unfolding q_def quantum by simp
  have "2 ^ 52 * q \<le> x" using binade_le [OF assms] qq by (simp add: mult.commute)
  then have "of_int (2 ^ 52) \<le> x / q" using q by (simp add: pos_le_divide_eq)
  then have "2 ^ 52 \<le> round_half_even (x / q)" by (rule round_half_even_ge)
  then have "(2::real) ^ 52 \<le> of_int (round_half_even (x / q))"
    by (metis of_int_le_iff of_int_numeral of_int_power)
  then have "2 ^ 52 * q \<le> of_int (round_half_even (x / q)) * q"
    using q by (intro mult_right_mono) simp_all
  then show ?thesis
    using qq by (simp add: binary64_pos [OF assms q_def] mult.commute)
qed

lemma binary64_ge_one:
  assumes "1 \<le> x"
  shows "1 \<le> binary64 x"
proof -
  have x: "0 < x" using assms by simp
  have "0 \<le> log 2 x" using assms by simp
  then have "0 \<le> \<lfloor>log 2 x\<rfloor>" by simp
  then have "(2::real) powr 0 \<le> 2 powr (of_int \<lfloor>log 2 x\<rfloor>)" by (intro powr_mono) simp_all
  then show ?thesis using binary64_ge_binade [OF x] by simp
qed

lemma binary64_scaled:
  assumes "2 ^ 52 \<le> x * 2 ^ n" "x * 2 ^ n < 2 ^ 53"
  shows "binary64 x = of_int (round_half_even (x * 2 ^ n)) / 2 ^ n"
proof -
  have x: "0 < x"
  proof (rule ccontr)
    assume "\<not> 0 < x"
    then have "x * 2 ^ n \<le> 0" by (simp add: mult_le_0_iff)
    with assms(1) show False by (smt (verit) zero_less_power)
  qed
  have l52: "log 2 ((2::real) ^ 52) = 52" and l53: "log 2 ((2::real) ^ 53) = 53"
    using log_pow_cancel [of 2 52] log_pow_cancel [of 2 53] by simp_all
  have split: "log 2 (x * 2 ^ n) = log 2 x + real n"
    using x by (simp add: log_mult log_nat_power)
  have lo: "52 - real n \<le> log 2 x"
  proof -
    have "log 2 (2 ^ 52) \<le> log 2 (x * 2 ^ n)" using assms(1) x by (subst log_le_cancel_iff) simp_all
    then show ?thesis unfolding split l52 by simp
  qed
  have hi: "log 2 x < 53 - real n"
  proof -
    have "log 2 (x * 2 ^ n) < log 2 (2 ^ 53)" using assms(2) x by (subst log_less_cancel_iff) simp_all
    then show ?thesis unfolding split l53 by simp
  qed
  have "\<lfloor>log 2 x\<rfloor> = 52 - int n" using lo hi by (simp add: floor_eq_iff)
  then have e: "\<lfloor>log 2 x\<rfloor> - 52 = - int n" by simp
  have q: "(2::real) powr (of_int (- int n)) = 1 / 2 ^ n"
    by (simp add: powr_minus powr_realpow inverse_eq_divide)
  have "binary64 x = of_int (round_half_even (x / (1 / 2 ^ n))) * (1 / 2 ^ n)"
    by (rule binary64_pos [OF x]) (simp only: e q)
  then show ?thesis by simp
qed

lemma round_trip:
  assumes "0 < d" "n < 2 ^ 50"
  shows "nat (round_half_up (binary64 (real d * binary64 (real n / real d)))) = n"
proof (cases "n = 0")
  case True
  then show ?thesis by (simp add: round_half_up_def)
next
  case False
  define x where "x = real n / real d"
  define a where "a = binary64 x"
  define y where "y = real d * a"
  define b where "b = binary64 y"
  define u where "u = real n / 2 ^ 53"
  have n: "0 < real n" "real n < 2 ^ 50" using False assms(2) by (simp_all add: of_nat_less_iff [of n "2 ^ 50", simplified])
  have d: "0 < real d" using assms(1) by simp
  have x: "0 < x" using n d by (simp add: x_def)
  have ea: "\<bar>a - x\<bar> \<le> x / 2 ^ 53" unfolding a_def by (rule binary64_error [OF x])
  have "y - real n = real d * (a - x)" using d by (simp add: y_def x_def field_simps)
  then have "\<bar>y - real n\<bar> = real d * \<bar>a - x\<bar>" using d by (simp add: abs_mult)
  also have "\<dots> \<le> real d * (x / 2 ^ 53)" using ea d by (intro mult_left_mono) simp_all
  also have "\<dots> = u" using d by (simp add: x_def u_def)
  finally have ey: "\<bar>y - real n\<bar> \<le> u" .
  have u: "0 < u" "u < 1 / 8" using n by (simp_all add: u_def)
  have ypos: "0 < y"
  proof -
    have "u < real n" using n by (simp add: u_def)
    then show ?thesis using ey by linarith
  qed
  have eb: "\<bar>b - y\<bar> \<le> y / 2 ^ 53" unfolding b_def by (rule binary64_error [OF ypos])
  have "y \<le> real n + u" using ey by linarith
  then have "y / 2 ^ 53 \<le> (real n + u) / 2 ^ 53" by (simp add: divide_right_mono)
  also have "\<dots> = u + u / 2 ^ 53" by (simp add: u_def add_divide_distrib)
  also have "\<dots> \<le> u + u" using u by (simp add: field_simps)
  finally have "\<bar>b - y\<bar> \<le> 2 * u" using eb by linarith
  then have "\<bar>b - real n\<bar> < 1 / 2" using ey u by linarith
  then have "- (1 / 2) < b - real n" "b - real n < 1 / 2" by (simp_all only: abs_less_iff) simp_all
  then have "of_int (int n) \<le> b + 1 / 2" "b + 1 / 2 < of_int (int n) + 1" by simp_all
  then have "\<lfloor>b + 1 / 2\<rfloor> = int n" by (rule floor_unique)
  then show ?thesis
    by (simp add: round_half_up_def b_def y_def a_def x_def)
qed

lemma round_half_even_of_int: "round_half_even (of_int k) = k"
  by (simp add: round_half_even_def)

text \<open>A pixel count below \<open>2\<^sup>5\<^sup>3\<close> is a double.\<close>

lemma binary64_of_nat:
  assumes "n < 2 ^ 53"
  shows "binary64 (real n) = real n"
proof (cases "n = 0")
  case True
  then show ?thesis by simp
next
  case False
  then have x: "0 < real n" by simp
  have l53: "log 2 ((2::real) ^ 53) = 53" using log_pow_cancel [of 2 53] by simp
  have "real n < 2 ^ 53" using assms by (simp add: of_nat_less_iff [of n "2 ^ 53", simplified])
  then have "log 2 (real n) < log 2 (2 ^ 53)" using x by (subst log_less_cancel_iff) simp_all
  then have "log 2 (real n) < 53" unfolding l53 .
  then have "\<lfloor>log 2 (real n)\<rfloor> < 53" by (simp add: floor_less_iff)
  define m where "m = nat (52 - \<lfloor>log 2 (real n)\<rfloor>)"
  have m: "\<lfloor>log 2 (real n)\<rfloor> - 52 = - int m"
    using \<open>\<lfloor>log 2 (real n)\<rfloor> < 53\<close> by (simp add: m_def)
  have q: "(2::real) powr (of_int (- int m)) = 1 / 2 ^ m"
    by (simp add: powr_minus powr_realpow inverse_eq_divide)
  have "binary64 (real n) = of_int (round_half_even (real n / (1 / 2 ^ m))) * (1 / 2 ^ m)"
    by (rule binary64_pos [OF x]) (simp only: m q)
  also have "real n / (1 / 2 ^ m) = of_int (int n * 2 ^ m)" by simp
  finally show ?thesis by (simp only: round_half_even_of_int) simp
qed

lemma binary64_1: "binary64 1 = 1"
  using binary64_of_nat [of 1] by simp

lemma binary64_numeral:
  assumes "(numeral k :: nat) < 2 ^ 53"
  shows "binary64 (numeral k) = numeral k"
  using binary64_of_nat [OF assms] by simp


section \<open>Properties of the image processor\<close>

subsection \<open>Canvases, bytes and the direct pass\<close>

lemma report_simps [simp]:
  "report True seen v = seen @ [v]" "report False seen v = seen"
  by (simp_all add: report_def)

lemma repaint_fields [simp]:
  "width (repaint dst f) = width dst" "height (repaint dst f) = height dst"
  "length (data (repaint dst f)) = 4 * width dst * height dst"
  by (simp_all add: repaint_def)

lemma byte_le_255: "unat (b :: 8 word) \<le> 255"
proof -
  have "unat b < 2 ^ LENGTH(8)" by (rule unsigned_less)
  then show ?thesis by simp
qed

lemma repaint_bytes: "v \<in> set (data (repaint dst f)) \<Longrightarrow> v \<le> 255"
  by (auto simp add: repaint_def byte_le_255)

lemma drawImage_whole:
  assumes "0 < width src" "0 < height src"
  shows "drawImage B src (whole src) dst = Inr (repaint dst (smoothing B src (whole src) dst))"
  using assms by (simp add: drawImage_def whole_def jnat_def)

lemma upscaleBilinear_run:
  assumes "0 < width src" "0 < height src"
  shows "upscaleBilinear B src tw th cb seen =
           (report cb seen 90,
            Inr (repaint (createCanvas tw th) (smoothing B src (whole src) (createCanvas tw th))))"
  by (simp add: upscaleBilinear_def drawImage_whole [OF assms])

lemma round_half_even_bounds:
  assumes "0 < v" "v < 255"
  shows "0 \<le> round_half_even v" "round_half_even v \<le> 255"
proof -
  have "\<lfloor>v\<rfloor> < 255" using assms by (simp add: floor_less_iff)
  moreover have "0 \<le> \<lfloor>v\<rfloor>" using assms by simp
  ultimately have f: "0 \<le> \<lfloor>v\<rfloor>" "\<lfloor>v\<rfloor> \<le> 254" by simp_all
  show "0 \<le> round_half_even v" "round_half_even v \<le> 255"
    using f by (simp_all add: round_half_even_def Let_def)
qed

lemma toUint8Clamp_le: "toUint8Clamp x \<le> 255"
proof (cases x)
  case (Num v)
  then show ?thesis using round_half_even_bounds [of v] by auto
qed simp_all

lemma channel_le: "channel s w \<le> 255"
  by (simp add: channel_def toUint8Clamp_le)

lemma lanczosPixel_channels:
  "\<exists>r g b a w. lanczosPixel d sw sh tw th x y = [channel r w, channel g w, channel b w, channel a w]"
proof -
  obtain r g b a w where
    "lanczosSums d sw sh (real x * (real sw / real tw)) (real y * (real sh / real th)) = (r, g, b, a, w)"
    by (rule prod_cases5)
  then have "lanczosPixel d sw sh tw th x y = [channel r w, channel g w, channel b w, channel a w]"
    by (simp add: lanczosPixel_def Let_def)
  then show ?thesis by blast
qed

lemma lanczosPixel_length: "length (lanczosPixel d sw sh tw th x y) = 4"
  using lanczosPixel_channels [of d sw sh tw th x y] by auto

lemma lanczosPixel_bytes: "v \<in> set (lanczosPixel d sw sh tw th x y) \<Longrightarrow> v \<le> 255"
  using lanczosPixel_channels [of d sw sh tw th x y] by (auto simp add: channel_le)

lemma length_rows:
  assumes "\<And>x y. length (f x y) = 4"
  shows "length (concat (map (\<lambda>y. concat (map (\<lambda>x. f x y) [0..<w])) [0..<h])) = 4 * w * h"
proof -
  have row: "length (concat (map (\<lambda>x. f x y) xs)) = 4 * length xs" for y and xs :: "nat list"
    by (induction xs) (simp_all add: assms)
  have "length (concat (map (\<lambda>y. concat (map (\<lambda>x. f x y) [0..<w])) ys)) = 4 * w * length ys"
    for ys :: "nat list"
    by (induction ys) (simp_all add: row algebra_simps)
  then show ?thesis by simp
qed

lemma chunkLoop_silent: "\<not> cb \<Longrightarrow> chunkLoop startY th cb seen = seen"
proof (induction startY th cb seen rule: chunkLoop.induct)
  case (1 startY th cb seen)
  show ?case
  proof (cases "startY < th")
    case True
    with "1" show ?thesis by (subst chunkLoop.simps) (simp add: Let_def)
  next
    case False
    then show ?thesis by (subst chunkLoop.simps) simp
  qed
qed

lemma lanczosResample_run:
  assumes "0 < width src" "0 < height src" "0 < tw" "0 < th"
  shows "\<exists>c. lanczosResample src tw th cb seen = (chunkLoop 0 th cb seen, Inr c)
           \<and> width c = tw \<and> height c = th \<and> length (data c) = 4 * tw * th
           \<and> (\<forall>v \<in> set (data c). v \<le> 255)"
  using assms
  by (auto simp add: lanczosResample_def length_rows lanczosPixel_length lanczosPixel_bytes)

lemma chunkLoop_values:
  assumes "0 < th" "cb"
  shows "\<exists>vs. chunkLoop startY th cb seen = seen @ vs \<and> sorted vs
           \<and> (\<forall>v \<in> set vs. 10 + 80 * real (min startY th) / real th \<le> v \<and> v \<le> 90)"
  using assms
proof (induction startY th cb seen rule: chunkLoop.induct)
  case (1 startY th cb seen)
  note cb = \<open>cb\<close>
  show ?case
  proof (cases "startY < th")
    case False
    then have "chunkLoop startY th cb seen = seen" by (subst chunkLoop.simps) simp
    then show ?thesis by simp
  next
    case True
    define chunkSize where "chunkSize = nat \<lceil>real th / 10\<rceil>"
    define endY where "endY = min (startY + chunkSize) th"
    define v where "v = 10 + 80 * real endY / real th"
    from "1.IH" [OF True chunkSize_def endY_def "1.prems"]
    obtain vs where vs: "chunkLoop (startY + chunkSize) th cb (report cb seen v) = report cb seen v @ vs"
      "sorted vs" "\<forall>u \<in> set vs. 10 + 80 * real (min (startY + chunkSize) th) / real th \<le> u \<and> u \<le> 90"
      unfolding v_def by blast
    have unfold: "chunkLoop startY th cb seen = chunkLoop (startY + chunkSize) th cb (report cb seen v)"
      using True by (subst chunkLoop.simps) (simp add: Let_def chunkSize_def endY_def v_def)
    have th: "0 < real th" using "1.prems" by simp
    have e1: "real (min startY th) \<le> real endY" unfolding endY_def by simp
    have e2: "real endY \<le> real th" unfolding endY_def by simp
    have v1: "10 + 80 * real (min startY th) / real th \<le> v"
      unfolding v_def using e1 th by (simp add: divide_le_cancel)
    have "real endY / real th \<le> 1" using e2 th by simp
    then have v2: "v \<le> 90" unfolding v_def by simp
    have rest: "\<forall>u \<in> set vs. v \<le> u" using vs(3) unfolding v_def endY_def by auto
    have low: "\<forall>u \<in> set vs. 10 + 80 * real (min startY th) / real th \<le> u"
      using rest v1 by auto
    have "chunkLoop startY th cb seen = seen @ (v # vs)" using unfold vs(1) cb by simp
    moreover have "sorted (v # vs)" using vs(2) rest by simp
    moreover have "\<forall>u \<in> set (v # vs). 10 + 80 * real (min startY th) / real th \<le> u \<and> u \<le> 90"
      using v1 v2 low vs(3) by auto
    ultimately show ?thesis by blast
  qed
qed

subsection \<open>The bicubic plan\<close>

text \<open>
  The planning loop ends whenever a dimension still below its target is positive, so it
  ends for every decoded image and every request.
\<close>

lemma planSteps_terminates:
  assumes "w < tw \<longrightarrow> 0 < w" "h < th \<longrightarrow> 0 < h"
  shows "\<exists>new. planSteps w h tw th steps = Some (steps @ new)"
  using assms
proof (induction "(tw - w) + (th - h)" arbitrary: w h steps rule: less_induct)
  case less
  show ?case
  proof (cases "w < tw \<or> h < th")
    case False
    then have "planSteps w h tw th steps = Some steps"
      by (subst planSteps.simps) simp
    then show ?thesis by simp
  next
    case True
    define w' where "w' = min (w * 2) tw"
    define h' where "h' = min (h * 2) th"
    have inv: "w' < tw \<longrightarrow> 0 < w'" "h' < th \<longrightarrow> 0 < h'"
      using less.prems by (auto simp add: w'_def h'_def)
    have dec: "(tw - w') + (th - h') < (tw - w) + (th - h)"
      using True less.prems unfolding w'_def h'_def by auto
    from less.hyps [OF dec inv, of "steps @ [(w', h')]"]
    obtain new where new: "planSteps w' h' tw th (steps @ [(w', h')]) = Some ((steps @ [(w', h')]) @ new)"
      by blast
    have "planSteps w h tw th steps = planSteps w' h' tw th (steps @ [(w', h')])"
      using True by (subst planSteps.simps) (simp add: w'_def h'_def)
    then have "planSteps w h tw th steps = Some (steps @ ((w', h') # new))"
      using new by simp
    then show ?thesis by blast
  qed
qed

lemma finalSteps_last:
  "finalSteps planned tw th \<noteq> []" "last (finalSteps planned tw th) = (tw, th)"
  by (auto simp add: finalSteps_def prod_eq_iff)

text \<open>
  The loop over the steps: it reports once for each step it draws, it draws all of them
  unless a canvas it draws from is empty, and the canvas it returns is the last one drawn.
\<close>

lemma bicubicLoop_log:
  "\<exists>k res. k \<le> length steps
     \<and> bicubicLoop B cb n i steps cur seen =
         ((if cb then seen @ map (\<lambda>j. 10 + 80 * (real j + 1) / real n) [i..<i + k] else seen), res)
     \<and> ((\<forall>p \<in> set (butlast steps). 0 < fst p \<and> 0 < snd p)
          \<and> (steps \<noteq> [] \<longrightarrow> 0 < width cur \<and> 0 < height cur) \<longrightarrow> (\<exists>c. res = Inr c))
     \<and> (\<forall>c. res = Inr c \<longrightarrow> k = length steps
           \<and> (steps \<noteq> [] \<longrightarrow> width c = fst (last steps) \<and> height c = snd (last steps)
                 \<and> length (data c) = 4 * width c * height c \<and> (\<forall>v \<in> set (data c). v \<le> 255))
           \<and> (steps = [] \<longrightarrow> c = cur))"
proof (induction steps arbitrary: cur i seen)
  case Nil
  show ?case by simp
next
  case (Cons p steps)
  obtain w h where p: "p = (w, h)" by (cases p)
  define f where "f = (\<lambda>j. 10 + 80 * (real j + 1) / real n)"
  show ?case
  proof (cases "width cur = 0 \<or> height cur = 0")
    case True
    then have "drawImage B cur (whole cur) (createCanvas w h) = Inl InvalidStateError"
      by (simp add: drawImage_def whole_def jnat_def)
    then have "bicubicLoop B cb n i (p # steps) cur seen = (seen, Inl InvalidStateError)"
      by (simp add: p)
    then show ?thesis using True by (intro exI [of _ 0] exI [of _ "Inl InvalidStateError"]) auto
  next
    case False
    then have cur: "0 < width cur" "0 < height cur" by simp_all
    define d where "d = repaint (createCanvas w h) (smoothing B cur (whole cur) (createCanvas w h))"
    have draw: "drawImage B cur (whole cur) (createCanvas w h) = Inr d"
      unfolding d_def by (rule drawImage_whole [OF cur])
    have dprops: "width d = w" "height d = h" "length (data d) = 4 * w * h" "\<forall>v \<in> set (data d). v \<le> 255"
      by (auto simp add: d_def repaint_bytes)
    define v where "v = 10 + 80 * (real i + 1) / real n"
    from Cons.IH [of "Suc i" d "report cb seen v"]
    obtain k res where k: "k \<le> length steps"
      and run: "bicubicLoop B cb n (Suc i) steps d (report cb seen v) =
               ((if cb then report cb seen v @ map f [Suc i..<Suc i + k] else report cb seen v), res)"
      and ok: "(\<forall>p \<in> set (butlast steps). 0 < fst p \<and> 0 < snd p)
          \<and> (steps \<noteq> [] \<longrightarrow> 0 < width d \<and> 0 < height d) \<longrightarrow> (\<exists>c. res = Inr c)"
      and ret: "\<forall>c. res = Inr c \<longrightarrow> k = length steps
           \<and> (steps \<noteq> [] \<longrightarrow> width c = fst (last steps) \<and> height c = snd (last steps)
                 \<and> length (data c) = 4 * width c * height c \<and> (\<forall>v \<in> set (data c). v \<le> 255))
           \<and> (steps = [] \<longrightarrow> c = d)"
      unfolding f_def by (elim exE conjE) iprover
    have upt: "[i..<i + Suc k] = i # [Suc i..<Suc i + k]" by (simp add: upt_rec)
    have step: "bicubicLoop B cb n i (p # steps) cur seen =
                  bicubicLoop B cb n (Suc i) steps d (report cb seen v)"
      by (simp add: p draw v_def)
    have "(if cb then report cb seen v @ map f [Suc i..<Suc i + k] else report cb seen v)
            = (if cb then seen @ map f [i..<i + Suc k] else seen)"
      unfolding upt by (simp add: report_def f_def v_def)
    with step run have r1: "bicubicLoop B cb n i (p # steps) cur seen =
         ((if cb then seen @ map (\<lambda>j. 10 + 80 * (real j + 1) / real n) [i..<i + Suc k] else seen), res)"
      unfolding f_def by simp
    have r2: "(\<forall>q \<in> set (butlast (p # steps)). 0 < fst q \<and> 0 < snd q)
          \<and> (p # steps \<noteq> [] \<longrightarrow> 0 < width cur \<and> 0 < height cur) \<longrightarrow> (\<exists>c. res = Inr c)"
      using ok dprops(1,2) by (cases "steps = []") (auto simp add: p)
    have r3: "\<forall>c. res = Inr c \<longrightarrow> Suc k = length (p # steps)
           \<and> (p # steps \<noteq> [] \<longrightarrow> width c = fst (last (p # steps)) \<and> height c = snd (last (p # steps))
                 \<and> length (data c) = 4 * width c * height c \<and> (\<forall>v \<in> set (data c). v \<le> 255))
           \<and> (p # steps = [] \<longrightarrow> c = cur)"
      using ret dprops by (cases "steps = []") (auto simp add: p)
    have r0: "Suc k \<le> length (p # steps)" using k by simp
    from r0 r1 r2 r3 show ?thesis by blast
  qed
qed

lemma planSteps_positive:
  assumes "0 < w" "0 < h" "0 < tw" "0 < th" "planSteps w h tw th steps = Some (steps @ new)"
  shows "\<forall>p \<in> set new. 0 < fst p \<and> 0 < snd p"
  using assms(1,2,5)
proof (induction "(tw - w) + (th - h)" arbitrary: w h steps new rule: less_induct)
  case less
  show ?case
  proof (cases "w < tw \<or> h < th")
    case False
    then have "planSteps w h tw th steps = Some steps"
      by (subst planSteps.simps) simp
    with less.prems(3) show ?thesis by simp
  next
    case True
    define w' where "w' = min (w * 2) tw"
    define h' where "h' = min (h * 2) th"
    have pos: "0 < w'" "0 < h'" using less.prems(1,2) assms(3,4) by (simp_all add: w'_def h'_def)
    have dec: "(tw - w') + (th - h') < (tw - w) + (th - h)"
      using True less.prems(1,2) unfolding w'_def h'_def by auto
    have step: "planSteps w h tw th steps = planSteps w' h' tw th (steps @ [(w', h')])"
      using True by (subst planSteps.simps) (simp add: w'_def h'_def)
    from planSteps_terminates [of w' tw h' th "steps @ [(w', h')]"] pos
    obtain new' where new': "planSteps w' h' tw th (steps @ [(w', h')]) = Some ((steps @ [(w', h')]) @ new')"
      by auto
    with step less.prems(3) have new: "new = (w', h') # new'" by simp
    from less.hyps [OF dec pos new'] have "\<forall>p \<in> set new'. 0 < fst p \<and> 0 < snd p" .
    then show ?thesis using pos by (simp add: new)
  qed
qed

lemma finalSteps_butlast:
  assumes "\<forall>p \<in> set planned. 0 < fst p \<and> 0 < snd p"
  shows "\<forall>p \<in> set (butlast (finalSteps planned tw th)). 0 < fst p \<and> 0 < snd p"
  using assms by (auto simp add: finalSteps_def dest: in_set_butlastD)

text \<open>
  The bicubic strategy on a source that is not empty: it ends, its reports are the first
  \<open>k\<close> of \<open>n\<close> evenly spaced values, and a canvas it returns has the size asked for.
\<close>

lemma upscaleBicubic_log:
  assumes "0 < width src" "0 < height src"
  shows "\<exists>n k res. 0 < n \<and> k \<le> n
           \<and> upscaleBicubic B src tw th cb seen =
               Some ((if cb then seen @ map (\<lambda>j. 10 + 80 * (real j + 1) / real n) [0..<k]
                      else seen), res)
           \<and> (0 < tw \<and> 0 < th \<longrightarrow> (\<exists>c. res = Inr c))
           \<and> (\<forall>c. res = Inr c \<longrightarrow> width c = tw \<and> height c = th
                 \<and> length (data c) = 4 * tw * th \<and> (\<forall>v \<in> set (data c). v \<le> 255))"
proof -
  from planSteps_terminates [of "width src" tw "height src" th "[]"] assms
  obtain planned where planned: "planSteps (width src) (height src) tw th [] = Some planned"
    by auto
  define steps where "steps = finalSteps planned tw th"
  note fs = finalSteps_last [of planned tw th, folded steps_def]
  from bicubicLoop_log [of steps B cb "length steps" 0 src seen]
  obtain k res where k: "k \<le> length steps"
    and run: "bicubicLoop B cb (length steps) 0 steps src seen =
         ((if cb then seen @ map (\<lambda>j. 10 + 80 * (real j + 1) / real (length steps)) [0..<0 + k]
           else seen), res)"
    and ok: "(\<forall>p \<in> set (butlast steps). 0 < fst p \<and> 0 < snd p)
          \<and> (steps \<noteq> [] \<longrightarrow> 0 < width src \<and> 0 < height src) \<longrightarrow> (\<exists>c. res = Inr c)"
    and ret: "\<forall>c. res = Inr c \<longrightarrow> k = length steps
           \<and> (steps \<noteq> [] \<longrightarrow> width c = fst (last steps) \<and> height c = snd (last steps)
                 \<and> length (data c) = 4 * width c * height c \<and> (\<forall>v \<in> set (data c). v \<le> 255))
           \<and> (steps = [] \<longrightarrow> c = src)"
    by (elim exE conjE) iprover
  have r1: "upscaleBicubic B src tw th cb seen =
               Some ((if cb then seen @ map (\<lambda>j. 10 + 80 * (real j + 1) / real (length steps)) [0..<k]
                      else seen), res)"
    using run by (simp add: upscaleBicubic_def planned Let_def steps_def)
  have r2: "\<exists>c. res = Inr c" if "0 < tw \<and> 0 < th"
  proof -
    have "planSteps (width src) (height src) tw th [] = Some ([] @ planned)"
      using planned by simp
    from planSteps_positive [OF assms _ _ this] that
    have "\<forall>p \<in> set planned. 0 < fst p \<and> 0 < snd p" by simp
    then have "\<forall>p \<in> set (butlast steps). 0 < fst p \<and> 0 < snd p"
      unfolding steps_def by (rule finalSteps_butlast)
    with ok assms show ?thesis by blast
  qed
  have r3: "\<forall>c. res = Inr c \<longrightarrow> width c = tw \<and> height c = th
                 \<and> length (data c) = 4 * tw * th \<and> (\<forall>v \<in> set (data c). v \<le> 255)"
    using ret fs by auto
  have "0 < length steps" using fs(1) by simp
  with k r1 r2 r3 show ?thesis by blast
qed

subsection \<open>The staged loop\<close>

lemma doubling_step:
  fixes cs ts :: real
  assumes "0 < cs" "ts \<le> cs * 2 ^ Suc n" "\<forall>m<Suc n. cs * 2 ^ m < ts"
  shows "ts \<le> min (cs * 2) ts * 2 ^ n" and "\<forall>m<n. min (cs * 2) ts * 2 ^ m < ts"
proof -
  from assms(3) have lt: "cs < ts" by force
  show "ts \<le> min (cs * 2) ts * 2 ^ n"
  proof (cases "cs * 2 \<le> ts")
    case True
    then show ?thesis using assms(2) by (simp add: min_def mult.assoc)
  next
    case False
    then have "min (cs * 2) ts = ts" by simp
    moreover have "(1::real) \<le> 2 ^ n" by simp
    moreover have "0 < ts" using lt assms(1) by simp
    ultimately show ?thesis by (simp add: mult_le_cancel_left1)
  qed
  show "\<forall>m<n. min (cs * 2) ts * 2 ^ m < ts"
  proof (intro allI impI)
    fix m assume "m < n"
    then have "Suc m < Suc n" by simp
    with assms(3) have "cs * 2 ^ Suc m < ts" by blast
    then have "cs * 2 * 2 ^ m < ts" by (simp add: mult.assoc)
    moreover have "min (cs * 2) ts * 2 ^ m \<le> cs * 2 * 2 ^ m" by simp
    ultimately show "min (cs * 2) ts * 2 ^ m < ts" by linarith
  qed
qed

lemma stagedLoop_passes:
  assumes "0 < cs" "ts \<le> cs * 2 ^ n" "\<forall>m<n. cs * 2 ^ m < ts"
  shows "stagedLoop sw sh ts tot cb cur cs k seen
           = Some (stagedPasses sw sh ts tot cb n cur cs k seen)"
  using assms
proof (induction n arbitrary: cur cs k seen)
  case 0
  then have "\<not> cs < ts" by simp
  then show ?case by (subst stagedLoop.simps) simp
next
  case (Suc n)
  from Suc.prems(3) have lt: "cs < ts" by force
  define nextScale where "nextScale = min (cs * 2) ts"
  have pos: "0 < nextScale" using Suc.prems(1) lt by (simp add: nextScale_def)
  have up: "ts \<le> nextScale * 2 ^ n" and below: "\<forall>m<n. nextScale * 2 ^ m < ts"
    unfolding nextScale_def by (rule doubling_step [OF Suc.prems])+
  note IH = Suc.IH [OF pos up below]
  show ?case
    using lt by (subst stagedLoop.simps) (simp add: Let_def nextScale_def [symmetric] IH split: prod.splits sum.splits)
qed

lemma passes_count:
  assumes "1 < ts"
  shows "ts \<le> 1 * 2 ^ nat \<lceil>log 2 ts\<rceil>" and "\<forall>m < nat \<lceil>log 2 ts\<rceil>. 1 * 2 ^ m < ts"
proof -
  have ts: "0 < ts" using assms by simp
  have lg: "0 < log 2 ts" using assms by simp
  then have c: "0 < \<lceil>log 2 ts\<rceil>" by linarith
  have "ts = 2 powr (log 2 ts)" using ts by simp
  also have "\<dots> \<le> 2 powr (real_of_int \<lceil>log 2 ts\<rceil>)"
    by (intro powr_mono) simp_all
  also have "\<dots> = 2 powr (real (nat \<lceil>log 2 ts\<rceil>))" using c by simp
  also have "\<dots> = 2 ^ nat \<lceil>log 2 ts\<rceil>" by (simp add: powr_realpow)
  finally show "ts \<le> 1 * 2 ^ nat \<lceil>log 2 ts\<rceil>" by simp
  show "\<forall>m < nat \<lceil>log 2 ts\<rceil>. 1 * 2 ^ m < ts"
  proof (intro allI impI)
    fix m assume "m < nat \<lceil>log 2 ts\<rceil>"
    then have "int m < \<lceil>log 2 ts\<rceil>" by simp
    then have "real m < log 2 ts" by (simp add: less_ceiling_iff)
    then have "2 powr (real m) < 2 powr (log 2 ts)" by simp
    then show "1 * 2 ^ m < ts" using ts by (simp add: powr_realpow)
  qed
qed

lemma round_half_up_pos:
  assumes "1 \<le> x"
  shows "0 < round_half_up x"
proof -
  have "1 \<le> \<lfloor>x + 1 / 2\<rfloor>" using assms by (simp add: le_floor_iff)
  then show ?thesis by (simp add: round_half_up_def)
qed

lemma stagedPasses_run:
  assumes src: "0 < sw" "0 < sh" and cur: "0 < width cur" "0 < height cur"
    and cs: "1 \<le> cs" and up: "ts \<le> cs * 2 ^ n" and below: "\<forall>m<n. cs * 2 ^ m < ts"
  shows "\<exists>c. stagedPasses sw sh ts tot cb n cur cs k seen =
               ((if cb then seen @ map (\<lambda>j. 10 + 80 * real (j + 1) / real_of_int tot) [k..<k + n]
                 else seen), Inr c)
           \<and> (0 < n \<longrightarrow> width c = nat (round_half_up (binary64 (real sw * ts)))
                 \<and> height c = nat (round_half_up (binary64 (real sh * ts)))
                 \<and> length (data c) = 4 * width c * height c \<and> (\<forall>v \<in> set (data c). v \<le> 255))
           \<and> (n = 0 \<longrightarrow> c = cur)"
  using cur cs up below
proof (induction n arbitrary: cur cs k seen)
  case 0
  show ?case by simp
next
  case (Suc n)
  from Suc.prems(5) have lt: "cs < ts" by force
  define nextScale where "nextScale = min (cs * 2) ts"
  define nw where "nw = nat (round_half_up (binary64 (real sw * nextScale)))"
  define nh where "nh = nat (round_half_up (binary64 (real sh * nextScale)))"
  define v where "v = 10 + 80 * real (k + 1) / real_of_int tot"
  define f where "f = (\<lambda>j. 10 + 80 * real (j + 1) / real_of_int tot)"
  have ns1: "1 \<le> nextScale" using Suc.prems(3) lt by (simp add: nextScale_def)
  have ge1: "1 \<le> real m * nextScale" if "0 < m" for m :: nat
  proof -
    have "1 \<le> real m" using that by simp
    then have "1 * 1 \<le> real m * nextScale" using ns1 by (intro mult_mono) simp_all
    then show ?thesis by simp
  qed
  have "1 \<le> real sw * nextScale" "1 \<le> real sh * nextScale"
    using src by (simp_all add: ge1)
  then have "1 \<le> binary64 (real sw * nextScale)" "1 \<le> binary64 (real sh * nextScale)"
    by (simp_all add: binary64_ge_one)
  then have npos: "0 < nw" "0 < nh" unfolding nw_def nh_def by (simp_all add: round_half_up_pos)
  from lanczosResample_run [OF Suc.prems(1,2) npos, of False seen]
  obtain c1 where c1: "lanczosResample cur nw nh False seen = (seen, Inr c1)"
    "width c1 = nw" "height c1 = nh" "length (data c1) = 4 * nw * nh" "\<forall>v \<in> set (data c1). v \<le> 255"
    by (auto simp add: chunkLoop_silent)
  have c1pos: "0 < width c1" "0 < height c1" using c1(2,3) npos by simp_all
  have cs0: "0 < cs" using Suc.prems(3) by simp
  have up': "ts \<le> nextScale * 2 ^ n" and below': "\<forall>m<n. nextScale * 2 ^ m < ts"
    unfolding nextScale_def by (rule doubling_step [OF cs0 Suc.prems(4,5)])+
  from Suc.IH [OF c1pos ns1 up' below', of "Suc k" "report cb seen v"]
  obtain c where c: "stagedPasses sw sh ts tot cb n c1 nextScale (Suc k) (report cb seen v) =
               ((if cb then report cb seen v @ map f [Suc k..<Suc k + n] else report cb seen v), Inr c)"
    "0 < n \<longrightarrow> width c = nat (round_half_up (binary64 (real sw * ts)))
                 \<and> height c = nat (round_half_up (binary64 (real sh * ts)))
                 \<and> length (data c) = 4 * width c * height c \<and> (\<forall>v \<in> set (data c). v \<le> 255)"
    "n = 0 \<longrightarrow> c = c1" unfolding f_def by blast
  have step: "stagedPasses sw sh ts tot cb (Suc n) cur cs k seen =
                stagedPasses sw sh ts tot cb n c1 nextScale (Suc k) (report cb seen v)"
    by (simp add: Let_def nextScale_def [symmetric] nw_def [symmetric] nh_def [symmetric] c1(1) v_def)
  have upt: "[k..<k + Suc n] = k # [Suc k..<Suc k + n]" by (simp add: upt_rec)
  have "(if cb then report cb seen v @ map f [Suc k..<Suc k + n] else report cb seen v)
          = (if cb then seen @ map f [k..<k + Suc n] else seen)"
    unfolding upt by (simp add: report_def f_def v_def)
  with step c(1) have run: "stagedPasses sw sh ts tot cb (Suc n) cur cs k seen =
               ((if cb then seen @ map (\<lambda>j. 10 + 80 * real (j + 1) / real_of_int tot) [k..<k + Suc n]
                 else seen), Inr c)"
    unfolding f_def by simp
  have dims: "width c = nat (round_half_up (binary64 (real sw * ts)))
                 \<and> height c = nat (round_half_up (binary64 (real sh * ts)))
                 \<and> length (data c) = 4 * width c * height c \<and> (\<forall>v \<in> set (data c). v \<le> 255)"
  proof (cases "n = 0")
    case False
    then show ?thesis using c(2) by simp
  next
    case True
    then have "ts \<le> cs * 2" using Suc.prems(4) by simp
    then have "nextScale = ts" by (simp add: nextScale_def)
    then show ?thesis using c(3) True c1 by (simp add: nw_def nh_def)
  qed
  show ?case using run dims by auto
qed

subsection \<open>The Lanczos strategy and the entry point\<close>

lemma upscaleLanczos_direct:
  assumes "0 < width src" "binary64 (real tw / real (width src)) \<le> 2"
  shows "upscaleLanczos src tw th cb seen = Some (lanczosResample src tw th cb seen)"
  using assms by (simp add: upscaleLanczos_def jnat_def)

lemma upscaleLanczos_staged:
  assumes "0 < width src" "2 < binary64 (real tw / real (width src))"
  shows "upscaleLanczos src tw th cb seen =
           Some (stagedPasses (width src) (height src) (binary64 (real tw / real (width src)))
                   \<lceil>log 2 (binary64 (real tw / real (width src)))\<rceil> cb
                   (nat \<lceil>log 2 (binary64 (real tw / real (width src)))\<rceil>) src 1 0 seen)"
proof -
  define ts where "ts = binary64 (real tw / real (width src))"
  have ts: "1 < ts" "\<not> ts \<le> 2" using assms(2) by (simp_all add: ts_def)
  have "stagedLoop (width src) (height src) ts \<lceil>log 2 ts\<rceil> cb src 1 0 seen =
        Some (stagedPasses (width src) (height src) ts \<lceil>log 2 ts\<rceil> cb (nat \<lceil>log 2 ts\<rceil>) src 1 0 seen)"
    by (rule stagedLoop_passes [OF _ passes_count [OF ts(1)]]) simp
  then show ?thesis
    using assms(1) ts(2) by (simp add: upscaleLanczos_def jnat_def Let_def ts_def [symmetric])
qed

lemma upscale_unfold:
  "upscale B (Some img) tw th alg cb =
     (case runAlgorithm B alg
             \<lparr>width = naturalWidth img, height = naturalHeight img, data = pixels img\<rparr>
             (fitWidth img tw th) (fitHeight img tw th) cb (report cb (report cb [] 0) 10) of
        None \<Rightarrow> None
      | Some (seen', Inl e) \<Rightarrow> Some (seen', Inl e)
      | Some (seen', Inr result) \<Rightarrow> Some (report cb seen' 100, Inr result))"
  by (simp add: upscale_def Let_def fitWidth_def fitHeight_def fitScale_def)

lemma ceiling_log2_pos:
  assumes "2 < ts"
  shows "1 < \<lceil>log 2 ts\<rceil>"
proof -
  have "log 2 2 < log 2 ts" using assms by simp
  then have "1 < log 2 ts" by simp
  then show ?thesis by (simp add: less_ceiling_iff)
qed

lemma linear_progress:
  assumes "k \<le> n"
  shows "sorted (map (\<lambda>j. 10 + 80 * (real j + 1) / real n) [0..<k])"
    and "\<forall>v \<in> set (map (\<lambda>j. 10 + 80 * (real j + 1) / real n) [0..<k]). 10 \<le> v \<and> v \<le> 90"
proof -
  show "sorted (map (\<lambda>j. 10 + 80 * (real j + 1) / real n) [0..<k])"
    by (auto simp add: sorted_iff_nth_mono divide_right_mono)
  show "\<forall>v \<in> set (map (\<lambda>j. 10 + 80 * (real j + 1) / real n) [0..<k]). 10 \<le> v \<and> v \<le> 90"
  proof
    fix v assume "v \<in> set (map (\<lambda>j. 10 + 80 * (real j + 1) / real n) [0..<k])"
    then obtain j where j: "j < k" "v = 10 + 80 * (real j + 1) / real n" by auto
    define q where "q = (real j + 1) / real n"
    have "j < n" using j(1) assms by simp
    then have q: "0 \<le> q" "q \<le> 1" by (simp_all add: q_def)
    have "v = 10 + 80 * q" using j(2) by (simp add: q_def)
    then show "10 \<le> v \<and> v \<le> 90" using q by simp
  qed
qed

lemma chunkLoop_log:
  assumes "0 < th"
  shows "\<exists>vs. chunkLoop 0 th cb seen = (if cb then seen @ vs else seen)
           \<and> sorted vs \<and> (\<forall>v \<in> set vs. 10 \<le> v \<and> v \<le> 90)"
proof (cases cb)
  case True
  from chunkLoop_values [OF assms True, of 0 seen] obtain vs where
    "chunkLoop 0 th cb seen = seen @ vs" "sorted vs"
    "\<forall>v \<in> set vs. 10 + 80 * real (min 0 th) / real th \<le> v \<and> v \<le> 90" by blast
  then show ?thesis using True by (intro exI [of _ vs]) simp
next
  case False
  then show ?thesis by (intro exI [of _ "[]"]) (simp add: chunkLoop_silent)
qed

text \<open>
  What each algorithm reports and returns on a source that is not empty: it ends, what it
  reports between 10 and 90 never decreases, it returns a canvas when the size asked for
  is not empty, and a canvas it returns has four bytes for each of its pixels. The staged
  Lanczos strategy returns the size of its last pass, every other path the size asked for.
\<close>

lemma runAlgorithm_log:
  assumes src: "0 < width src" "0 < height src"
  shows "\<exists>vs res. runAlgorithm B alg src tw th cb seen = Some ((if cb then seen @ vs else seen), res)
           \<and> sorted vs \<and> (\<forall>v \<in> set vs. 10 \<le> v \<and> v \<le> 90)
           \<and> (0 < tw \<and> 0 < th \<longrightarrow> (\<exists>c. res = Inr c))
           \<and> (\<forall>c. res = Inr c \<longrightarrow>
                 length (data c) = 4 * width c * height c \<and> (\<forall>v \<in> set (data c). v \<le> 255)
               \<and> (alg = Lanczos \<and> 2 < binary64 (real tw / real (width src)) \<longrightarrow>
                     width c = nat (round_half_up (binary64 (real (width src)
                                     * binary64 (real tw / real (width src)))))
                   \<and> height c = nat (round_half_up (binary64 (real (height src)
                                     * binary64 (real tw / real (width src))))))
               \<and> (\<not> (alg = Lanczos \<and> 2 < binary64 (real tw / real (width src))) \<longrightarrow>
                     width c = tw \<and> height c = th))"
proof (cases alg)
  case Bilinear
  define c where "c = repaint (createCanvas tw th) (smoothing B src (whole src) (createCanvas tw th))"
  have "runAlgorithm B alg src tw th cb seen = Some ((if cb then seen @ [90] else seen), Inr c)"
    by (simp add: runAlgorithm_def Bilinear upscaleBilinear_run [OF src] c_def report_def)
  moreover have "length (data c) = 4 * width c * height c" "\<forall>v \<in> set (data c). v \<le> 255"
    "width c = tw" "height c = th"
    by (auto simp add: c_def repaint_bytes)
  ultimately show ?thesis using Bilinear by (intro exI [of _ "[90]"] exI [of _ "Inr c"]) simp
next
  case Bicubic
  from upscaleBicubic_log [OF src, of B tw th cb seen]
  obtain n k res where n: "0 < n" "k \<le> n"
    and run: "upscaleBicubic B src tw th cb seen =
               Some ((if cb then seen @ map (\<lambda>j. 10 + 80 * (real j + 1) / real n) [0..<k]
                      else seen), res)"
    and ok: "0 < tw \<and> 0 < th \<longrightarrow> (\<exists>c. res = Inr c)"
    and ret: "\<forall>c. res = Inr c \<longrightarrow> width c = tw \<and> height c = th
                 \<and> length (data c) = 4 * tw * th \<and> (\<forall>v \<in> set (data c). v \<le> 255)"
    by (elim exE conjE) iprover
  define vs where "vs = map (\<lambda>j. 10 + 80 * (real j + 1) / real n) [0..<k]"
  have "sorted vs" "\<forall>v \<in> set vs. 10 \<le> v \<and> v \<le> 90"
    unfolding vs_def by (rule linear_progress [OF n(2)])+
  moreover have "runAlgorithm B alg src tw th cb seen = Some ((if cb then seen @ vs else seen), res)"
    using run by (simp add: runAlgorithm_def Bicubic vs_def)
  ultimately show ?thesis using Bicubic ok ret by (intro exI [of _ vs] exI [of _ res]) simp
next
  case Lanczos
  show ?thesis
  proof (cases "binary64 (real tw / real (width src)) \<le> 2")
    case True
    note direct = upscaleLanczos_direct [OF src(1) True]
    show ?thesis
    proof (cases "0 < tw \<and> 0 < th")
      case False
      then have "lanczosResample src tw th cb seen = (seen, Inl IndexSizeError)"
        using src by (auto simp add: lanczosResample_def)
      then have "runAlgorithm B alg src tw th cb seen = Some ((if cb then seen @ [] else seen), Inl IndexSizeError)"
        by (simp add: runAlgorithm_def Lanczos direct)
      then show ?thesis using False
        by (intro exI [of _ "[]"] exI [of _ "Inl IndexSizeError"]) simp
    next
      case tgt: True
      from lanczosResample_run [OF src, of tw th cb seen] tgt
      obtain c where c: "lanczosResample src tw th cb seen = (chunkLoop 0 th cb seen, Inr c)"
        "width c = tw" "height c = th" "length (data c) = 4 * tw * th" "\<forall>v \<in> set (data c). v \<le> 255"
        by blast
      from chunkLoop_log [of th cb seen] tgt
      obtain vs where vs: "chunkLoop 0 th cb seen = (if cb then seen @ vs else seen)"
        "sorted vs" "\<forall>v \<in> set vs. 10 \<le> v \<and> v \<le> 90" by blast
      have "runAlgorithm B alg src tw th cb seen = Some ((if cb then seen @ vs else seen), Inr c)"
        using c(1) vs(1) by (simp add: runAlgorithm_def Lanczos direct)
      then show ?thesis using Lanczos True c(2-5) vs(2,3)
        by (intro exI [of _ vs] exI [of _ "Inr c"]) simp
    qed
  next
    case False
    then have big: "2 < binary64 (real tw / real (width src))" by simp
    define ts where "ts = binary64 (real tw / real (width src))"
    define tot where "tot = \<lceil>log 2 ts\<rceil>"
    define n where "n = nat tot"
    have ts1: "1 < ts" using big by (simp add: ts_def)
    have tot: "1 < tot" unfolding tot_def using big ceiling_log2_pos [of ts] by (simp add: ts_def)
    then have n: "0 < n" "real_of_int tot = real n" by (simp_all add: n_def)
    from stagedPasses_run [OF src src _ passes_count [OF ts1], of tot cb 0 seen]
    obtain c where c: "stagedPasses (width src) (height src) ts tot cb n src 1 0 seen =
               ((if cb then seen @ map (\<lambda>j. 10 + 80 * real (j + 1) / real_of_int tot) [0..<0 + n]
                 else seen), Inr c)"
      "width c = nat (round_half_up (binary64 (real (width src) * ts)))"
      "height c = nat (round_half_up (binary64 (real (height src) * ts)))"
      "length (data c) = 4 * width c * height c" "\<forall>v \<in> set (data c). v \<le> 255"
      using n(1) unfolding n_def tot_def by auto
    define vs where "vs = map (\<lambda>j. 10 + 80 * real (j + 1) / real_of_int tot) [0..<n]"
    have vs': "vs = map (\<lambda>j. 10 + 80 * (real j + 1) / real n) [0..<n]"
      by (simp add: vs_def n(2) add.commute)
    have "sorted vs" "\<forall>v \<in> set vs. 10 \<le> v \<and> v \<le> 90"
      unfolding vs' by (rule linear_progress [OF order_refl])+
    moreover have "runAlgorithm B alg src tw th cb seen = Some ((if cb then seen @ vs else seen), Inr c)"
      using c(1) by (simp add: runAlgorithm_def Lanczos upscaleLanczos_staged [OF src(1) big]
          ts_def [symmetric] tot_def [symmetric] n_def [symmetric] vs_def)
    ultimately show ?thesis using Lanczos big c(2-5)
      by (intro exI [of _ vs] exI [of _ "Inr c"]) (simp add: ts_def)
  qed
qed

subsection \<open>The entry point\<close>


text \<open>
  \<^verbatim>\<open>upscale\<close> on a decoded image: it ends; with an observer it reports 0, 10, the
  values of the algorithm, and 100 if the algorithm returned a canvas; it returns a canvas
  when the fitted size is not empty; and a canvas it returns has the dimensions
  \<open>outputWidth\<close> by \<open>outputHeight\<close> and four bytes for each pixel.
\<close>

lemma upscale_log:
  assumes img: "0 < naturalWidth img" "0 < naturalHeight img"
  shows "\<exists>vs res. upscale B (Some img) tw th alg cb =
                 Some ((if cb then [0, 10] @ vs @ (case res of Inl e \<Rightarrow> [] | Inr c \<Rightarrow> [100]) else []),
                       res)
           \<and> sorted vs \<and> (\<forall>v \<in> set vs. 10 \<le> v \<and> v \<le> 90)
           \<and> (0 < fitWidth img tw th \<and> 0 < fitHeight img tw th \<longrightarrow> (\<exists>c. res = Inr c))
           \<and> (\<forall>c. res = Inr c \<longrightarrow>
                 length (data c) = 4 * width c * height c \<and> (\<forall>v \<in> set (data c). v \<le> 255)
               \<and> width c = outputWidth img tw th alg \<and> height c = outputHeight img tw th alg)"
proof -
  define src where "src = \<lparr>width = naturalWidth img, height = naturalHeight img, data = pixels img\<rparr>"
  have src: "0 < width src" "0 < height src" "width src = naturalWidth img"
    "height src = naturalHeight img"
    using img by (simp_all add: src_def)
  define s0 where "s0 = report cb (report cb [] 0) 10"
  from runAlgorithm_log [OF src(1,2), of B alg "fitWidth img tw th" "fitHeight img tw th" cb s0]
  obtain vs res where r: "runAlgorithm B alg src (fitWidth img tw th) (fitHeight img tw th) cb s0
      = Some ((if cb then s0 @ vs else s0), res)"
    and vs: "sorted vs" "\<forall>v \<in> set vs. 10 \<le> v \<and> v \<le> 90"
    and ok: "0 < fitWidth img tw th \<and> 0 < fitHeight img tw th \<longrightarrow> (\<exists>c. res = Inr c)"
    and ret: "\<forall>c. res = Inr c \<longrightarrow>
                 length (data c) = 4 * width c * height c \<and> (\<forall>v \<in> set (data c). v \<le> 255)
               \<and> (alg = Lanczos \<and> 2 < binary64 (real (fitWidth img tw th) / real (width src)) \<longrightarrow>
                     width c = nat (round_half_up (binary64 (real (width src)
                                     * binary64 (real (fitWidth img tw th) / real (width src)))))
                   \<and> height c = nat (round_half_up (binary64 (real (height src)
                                     * binary64 (real (fitWidth img tw th) / real (width src))))))
               \<and> (\<not> (alg = Lanczos \<and> 2 < binary64 (real (fitWidth img tw th) / real (width src))) \<longrightarrow>
                     width c = fitWidth img tw th \<and> height c = fitHeight img tw th)"
    by (elim exE conjE) iprover
  have run: "upscale B (Some img) tw th alg cb =
                 Some ((if cb then [0, 10] @ vs @ (case res of Inl e \<Rightarrow> [] | Inr c \<Rightarrow> [100]) else []),
                       res)"
    using r by (cases res) (simp_all add: upscale_unfold src_def [symmetric] s0_def [symmetric],
      simp_all add: s0_def report_def)
  have dims: "\<forall>c. res = Inr c \<longrightarrow>
                 length (data c) = 4 * width c * height c \<and> (\<forall>v \<in> set (data c). v \<le> 255)
               \<and> width c = outputWidth img tw th alg \<and> height c = outputHeight img tw th alg"
  proof (intro allI impI)
    fix c assume "res = Inr c"
    with ret have c: "length (data c) = 4 * width c * height c" "\<forall>v \<in> set (data c). v \<le> 255"
      "alg = Lanczos \<and> 2 < lanczosScale img tw th \<longrightarrow>
         width c = nat (round_half_up (binary64 (real (naturalWidth img) * lanczosScale img tw th)))
       \<and> height c = nat (round_half_up (binary64 (real (naturalHeight img) * lanczosScale img tw th)))"
      "\<not> (alg = Lanczos \<and> 2 < lanczosScale img tw th) \<longrightarrow>
         width c = fitWidth img tw th \<and> height c = fitHeight img tw th"
      unfolding src(3,4) lanczosScale_def by blast+
    have "width c = outputWidth img tw th alg" "height c = outputHeight img tw th alg"
      using c(3,4) by (cases "alg = Lanczos \<and> 2 < lanczosScale img tw th";
        simp add: outputWidth_def outputHeight_def)+
    with c(1,2) show "length (data c) = 4 * width c * height c \<and> (\<forall>v \<in> set (data c). v \<le> 255)
               \<and> width c = outputWidth img tw th alg \<and> height c = outputHeight img tw th alg"
      by simp
  qed
  note all = conjI [OF run conjI [OF vs(1) conjI [OF vs(2) conjI [OF ok dims]]]]
  show ?thesis by (rule exI [of _ vs], rule exI [of _ res], rule all)
qed

lemma upscale_returned:
  assumes "0 < naturalWidth img" "0 < naturalHeight img"
    and "0 < fitWidth img tw th" "0 < fitHeight img tw th"
  shows "\<exists>seen c. upscale B (Some img) tw th alg cb = Some (seen, Inr c)
           \<and> width c = outputWidth img tw th alg \<and> height c = outputHeight img tw th alg
           \<and> length (data c) = outputWidth img tw th alg * outputHeight img tw th alg * 4"
proof -
  from upscale_log [OF assms(1,2), of B tw th alg cb]
  obtain vs res where run: "upscale B (Some img) tw th alg cb =
        Some ((if cb then [0, 10] @ vs @ (case res of Inl e \<Rightarrow> [] | Inr c \<Rightarrow> [100]) else []), res)"
    and ok: "0 < fitWidth img tw th \<and> 0 < fitHeight img tw th \<longrightarrow> (\<exists>c. res = Inr c)"
    and ret: "\<forall>c. res = Inr c \<longrightarrow>
                 length (data c) = 4 * width c * height c \<and> (\<forall>v \<in> set (data c). v \<le> 255)
               \<and> width c = outputWidth img tw th alg \<and> height c = outputHeight img tw th alg"
    by (elim exE conjE) iprover
  from ok assms(3,4) obtain c where c: "res = Inr c" by blast
  with ret have "length (data c) = 4 * width c * height c"
    "width c = outputWidth img tw th alg" "height c = outputHeight img tw th alg" by blast+
  then show ?thesis using run c by simp
qed

lemma bufferLength_output:
  assumes "0 < naturalWidth img" "0 < naturalHeight img"
    and "0 < fitWidth img tw th" "0 < fitHeight img tw th"
  shows "bufferLength (upscale B (Some img) tw th alg cb)
           = Some (outputWidth img tw th alg * outputHeight img tw th alg * 4)"
  using upscale_returned [OF assms, of B alg cb]
  by (auto simp add: bufferLength_def returned_def)

lemma dimensions_output:
  assumes "0 < naturalWidth img" "0 < naturalHeight img"
    and "0 < fitWidth img tw th" "0 < fitHeight img tw th"
  shows "dimensions (upscale B (Some img) tw th alg cb)
           = Some (outputWidth img tw th alg, outputHeight img tw th alg)"
  using upscale_returned [OF assms, of B alg cb]
  by (auto simp add: dimensions_def returned_def)

text \<open>
  A request with the aspect ratio of the source, below \<open>2\<^sup>5\<^sup>0\<close> pixels a side, is
  fitted to itself, and no path changes it: the two roundings move the product by less
  than a half.
\<close>

lemma fit_exact:
  assumes "0 < naturalWidth img" "0 < naturalHeight img"
    and "tw * naturalHeight img = th * naturalWidth img"
    and "tw < 2 ^ 50" "th < 2 ^ 50"
  shows "fitWidth img tw th = tw" and "fitHeight img tw th = th"
    and "outputWidth img tw th alg = tw" and "outputHeight img tw th alg = th"
proof -
  have "real tw * real (naturalHeight img) = real th * real (naturalWidth img)"
    using assms(3) by (metis of_nat_mult)
  then have eq: "real tw / real (naturalWidth img) = real th / real (naturalHeight img)"
    using assms(1,2) by (simp add: field_simps)
  then have sc: "fitScale img tw th = binary64 (real tw / real (naturalWidth img))"
    "fitScale img tw th = binary64 (real th / real (naturalHeight img))"
    by (simp_all add: fitScale_def)
  show w: "fitWidth img tw th = tw"
    unfolding fitWidth_def sc(1) by (rule round_trip [OF assms(1,4)])
  show h: "fitHeight img tw th = th"
    unfolding fitHeight_def sc(2) by (rule round_trip [OF assms(2,5)])
  have ls: "lanczosScale img tw th = binary64 (real tw / real (naturalWidth img))"
    "lanczosScale img tw th = binary64 (real th / real (naturalHeight img))"
    by (simp_all add: lanczosScale_def w eq)
  have "nat (round_half_up (binary64 (real (naturalWidth img) * lanczosScale img tw th))) = tw"
    unfolding ls(1) by (rule round_trip [OF assms(1,4)])
  then show "outputWidth img tw th alg = tw" by (simp add: outputWidth_def w)
  have "nat (round_half_up (binary64 (real (naturalHeight img) * lanczosScale img tw th))) = th"
    unfolding ls(2) by (rule round_trip [OF assms(2,5)])
  then show "outputHeight img tw th alg = th" by (simp add: outputHeight_def h)
qed

lemma round_half_up_of_nat: "nat (round_half_up (real n)) = n"
proof -
  have "\<lfloor>real n + 1 / 2\<rfloor> = int n" by linarith
  then show ?thesis by (simp add: round_half_up_def)
qed

text \<open>The source's own size, a size a double holds exactly, is fitted to itself.\<close>

lemma fit_same_size:
  assumes "0 < naturalWidth img" "0 < naturalHeight img"
    and "naturalWidth img < 2 ^ 53" "naturalHeight img < 2 ^ 53"
  shows "fitWidth img (naturalWidth img) (naturalHeight img) = naturalWidth img"
    and "fitHeight img (naturalWidth img) (naturalHeight img) = naturalHeight img"
    and "lanczosScale img (naturalWidth img) (naturalHeight img) = 1"
proof -
  have sc: "fitScale img (naturalWidth img) (naturalHeight img) = 1"
    using assms(1,2) by (simp add: fitScale_def binary64_1)
  show w: "fitWidth img (naturalWidth img) (naturalHeight img) = naturalWidth img"
    by (simp add: fitWidth_def sc binary64_of_nat [OF assms(3)] round_half_up_of_nat)
  show "fitHeight img (naturalWidth img) (naturalHeight img) = naturalHeight img"
    by (simp add: fitHeight_def sc binary64_of_nat [OF assms(4)] round_half_up_of_nat)
  show "lanczosScale img (naturalWidth img) (naturalHeight img) = 1"
    using assms(1) by (simp add: lanczosScale_def w binary64_1)
qed

lemma ceiling_log2_3: "\<lceil>log 2 3\<rceil> = 2"
proof -
  have "log 2 2 < log 2 3" by simp
  then have lo: "1 < log 2 3" by simp
  have "log 2 3 \<le> log 2 4" by simp
  also have "log 2 4 = log 2 (2 ^ 2)" by simp
  also have "\<dots> = 2" by (simp only: log_pow_cancel)
  finally have hi: "log 2 3 \<le> 2" .
  from lo hi show ?thesis by (simp add: ceiling_eq_iff)
qed

subsection \<open>Sample computations\<close>

lemma fit_onePixel_1_2: "fitWidth onePixel 1 2 = 1" "fitHeight onePixel 1 2 = 1"
  by (simp_all add: fitWidth_def fitHeight_def fitScale_def onePixel_def round_half_up_def
      binary64_1 binary64_numeral)

lemma fit_twoPixels_2_2: "fitWidth twoPixels 2 2 = 2" "fitHeight twoPixels 2 2 = 1"
  by (simp_all add: fitWidth_def fitHeight_def fitScale_def twoPixels_def round_half_up_def
      binary64_1 binary64_numeral)

lemma fit_twoPixels_6_3:
  "fitWidth twoPixels 6 3 = 6" "fitHeight twoPixels 6 3 = 3" "lanczosScale twoPixels 6 3 = 3"
  by (simp_all add: lanczosScale_def fitWidth_def fitHeight_def fitScale_def twoPixels_def
      round_half_up_def binary64_1 binary64_numeral)

lemma fit_onePixel_3_3:
  "fitWidth onePixel 3 3 = 3" "fitHeight onePixel 3 3 = 3" "lanczosScale onePixel 3 3 = 3"
  by (simp_all add: lanczosScale_def fitWidth_def fitHeight_def fitScale_def onePixel_def
      round_half_up_def binary64_1 binary64_numeral)





lemma binary64_8_11: "binary64 (8 / 11) = 6550690367084358 / 2 ^ 53"
  using binary64_scaled [of "8 / 11" 53] by (simp add: round_half_even_def)

lemma binary64_15_22: "binary64 (15 / 22) = 6141272219141585 / 2 ^ 53"
  using binary64_scaled [of "15 / 22" 53] by (simp add: round_half_even_def)

lemma binary64_11_times: "binary64 (11 * (6141272219141585 / 2 ^ 53)) = 8444249301319679 / 2 ^ 50"
  using binary64_scaled [of "11 * (6141272219141585 / 2 ^ 53)" 50] by (simp add: round_half_even_def)

lemma binary64_22_times: "binary64 (22 * (6141272219141585 / 2 ^ 53)) = 8444249301319679 / 2 ^ 49"
  using binary64_scaled [of "22 * (6141272219141585 / 2 ^ 53)" 49] by (simp add: round_half_even_def)

text \<open>
  An image of 11 by 22 asked for 8 by 15 is fitted to 7 by 15: \<open>11 \<times> (15 / 22)\<close> is
  \<open>7.499999999999999\<close> in doubles.
\<close>

lemma fit_tallImage_8_15: "fitWidth tallImage 8 15 = 7" "fitHeight tallImage 8 15 = 15"
proof -
  have "fitScale tallImage 8 15 = min (binary64 (8 / 11)) (binary64 (15 / 22))"
    by (simp add: fitScale_def tallImage_def)
  then have sc: "fitScale tallImage 8 15 = 6141272219141585 / 2 ^ 53"
    unfolding binary64_8_11 binary64_15_22 by simp
  have "fitWidth tallImage 8 15 = nat (round_half_up (binary64 (11 * fitScale tallImage 8 15)))"
    by (simp add: fitWidth_def tallImage_def)
  then show "fitWidth tallImage 8 15 = 7"
    unfolding sc binary64_11_times by (simp add: round_half_up_def)
  have "fitHeight tallImage 8 15 = nat (round_half_up (binary64 (22 * fitScale tallImage 8 15)))"
    by (simp add: fitHeight_def tallImage_def)
  then show "fitHeight tallImage 8 15 = 15"
    unfolding sc binary64_22_times by (simp add: round_half_up_def)
qed

lemma binary64_13_6: "binary64 (13 / 6) = 4878899596318037 / 2 ^ 51"
  using binary64_scaled [of "13 / 6" 51] by (simp add: round_half_even_def)

lemma binary64_6_times: "binary64 (6 * (4878899596318037 / 2 ^ 51)) = 13"
  using binary64_scaled [of "6 * (4878899596318037 / 2 ^ 51)" 49] by (simp add: round_half_even_def)

lemma binary64_27_times: "binary64 (27 * (4878899596318037 / 2 ^ 51)) = 8233143068786687 / 2 ^ 47"
  using binary64_scaled [of "27 * (4878899596318037 / 2 ^ 51)" 47] by (simp add: round_half_even_def)

text \<open>
  A canvas of 6 by 27 staged to a width of 13 comes out 13 by 58: \<open>27 \<times> (13 / 6)\<close>
  is \<open>58.49999999999999\<close> in doubles.
\<close>

lemma staged_tallCanvas_13:
  "2 < binary64 (real 13 / real (width tallCanvas))"
  "nat (round_half_up (binary64 (real (width tallCanvas)
      * binary64 (real 13 / real (width tallCanvas))))) = 13"
  "nat (round_half_up (binary64 (real (height tallCanvas)
      * binary64 (real 13 / real (width tallCanvas))))) = 58"
proof -
  have q: "binary64 (real 13 / real (width tallCanvas)) = binary64 (13 / 6)"
    by (simp add: tallCanvas_def)
  show "2 < binary64 (real 13 / real (width tallCanvas))"
    unfolding q binary64_13_6 by simp
  have "binary64 (real (width tallCanvas) * binary64 (13 / 6)) = binary64 (6 * binary64 (13 / 6))"
    by (simp add: tallCanvas_def)
  then show "nat (round_half_up (binary64 (real (width tallCanvas)
      * binary64 (real 13 / real (width tallCanvas))))) = 13"
    unfolding q binary64_13_6 binary64_6_times by (simp add: round_half_up_def)
  have "binary64 (real (height tallCanvas) * binary64 (13 / 6)) = binary64 (27 * binary64 (13 / 6))"
    by (simp add: tallCanvas_def)
  then have e: "binary64 (real (height tallCanvas) * binary64 (real 13 / real (width tallCanvas)))
                  = 8233143068786687 / 2 ^ 47"
    unfolding q binary64_13_6 binary64_27_times .
  show "nat (round_half_up (binary64 (real (height tallCanvas)
      * binary64 (real 13 / real (width tallCanvas))))) = 58"
    unfolding e by (simp add: round_half_up_def)
qed

subsection \<open>The Lanczos kernel\<close>

lemma sin_ge_half:
  assumes "0 \<le> x" "x \<le> pi / 3"
  shows "x / 2 \<le> sin x"
proof -
  have "sin 0 - 0 / 2 \<le> sin x - x / 2"
  proof (rule DERIV_nonneg_imp_nondecreasing [OF assms(1)])
    fix y assume y: "0 \<le> y" "y \<le> x"
    have "((\<lambda>z. sin z - z / 2) has_real_derivative (cos y - 1 / 2)) (at y)"
      by (auto intro!: derivative_eq_intros)
    moreover have "cos (pi / 3) \<le> cos y"
      using y assms(2) pi_gt_zero by (intro cos_monotone_0_pi_le) auto
    then have "0 \<le> cos y - 1 / 2" by (simp add: cos_60)
    ultimately show "\<exists>d. ((\<lambda>z. sin z - z / 2) has_real_derivative d) (at y) \<and> 0 \<le> d"
      by blast
  qed
  then show ?thesis by simp
qed

lemma lanczos_inside:
  assumes "x \<noteq> 0" "- 3 \<le> x" "x \<le> 3"
  shows "lanczos x = 3 * sin (pi * x) * sin (pi * x / 3) / ((pi * x) * (pi * x))"
  using assms by (simp add: lanczos_def)

lemma lanczos_even: "lanczos (- x) = lanczos x"
  by (auto simp add: lanczos_def)

lemma lanczos_beyond: "3 < x \<Longrightarrow> lanczos x = 0"
  by (simp add: lanczos_def)

lemma lanczos_0: "lanczos 0 = 1"
  by (simp add: lanczos_def)

lemma lanczos_1: "lanczos 1 = 0"
  by (simp add: lanczos_def)

lemma lanczos_2: "lanczos 2 = 0"
  by (simp add: lanczos_def)

lemma lanczos_3: "lanczos 3 = 0"
  by (simp add: lanczos_def)

lemma lanczos_first_lobe:
  assumes "0 \<le> u" "u \<le> 1"
  shows "0 \<le> lanczos u" and "u < 1 \<Longrightarrow> 0 < lanczos u"
proof -
  have pos: "0 < lanczos u" if "u < 1"
  proof (cases "u = 0")
    case True
    then show ?thesis by (simp add: lanczos_0)
  next
    case False
    then have u: "0 < u" using assms(1) by simp
    have "0 < pi * u" "pi * u < pi" using u that by simp_all
    then have s1: "0 < sin (pi * u)" by (rule sin_gt_zero)
    have "0 < pi * u / 3" "pi * u / 3 < pi" using u that
      by (simp_all add: pi_gt_zero)
    then have s2: "0 < sin (pi * u / 3)" by (rule sin_gt_zero)
    have "lanczos u = 3 * sin (pi * u) * sin (pi * u / 3) / ((pi * u) * (pi * u))"
      using u assms(2) by (intro lanczos_inside) simp_all
    moreover have "0 < 3 * sin (pi * u) * sin (pi * u / 3) / ((pi * u) * (pi * u))"
      using s1 s2 u by simp
    ultimately show ?thesis by simp
  qed
  show "u < 1 \<Longrightarrow> 0 < lanczos u" by (rule pos)
  show "0 \<le> lanczos u"
  proof (cases "u < 1")
    case True
    then show ?thesis using pos by simp
  next
    case False
    then have "u = 1" using assms(2) by simp
    then show ?thesis by (simp add: lanczos_1)
  qed
qed


lemma lanczos_third_lobe:
  assumes "0 \<le> u" "u \<le> 1"
  shows "0 \<le> lanczos (u + 2)"
proof -
  have "0 \<le> pi * u" "pi * u \<le> pi" using assms by (simp_all add: mult_le_cancel_left1)
  then have "0 \<le> sin (pi * u)" by (rule sin_ge_zero)
  moreover have "sin (pi * (u + 2)) = sin (pi * u)"
  proof -
    have "pi * (u + 2) = pi * u + 2 * pi" by (simp add: algebra_simps)
    then show ?thesis by simp
  qed
  ultimately have s1: "0 \<le> sin (pi * (u + 2))" by simp
  have "0 \<le> pi * (u + 2) / 3" using assms by simp
  moreover have "pi * (u + 2) / 3 \<le> pi"
  proof -
    have "pi * (u + 2) \<le> pi * 3" using assms by (intro mult_left_mono) simp_all
    then show ?thesis by simp
  qed
  ultimately have s2: "0 \<le> sin (pi * (u + 2) / 3)" by (rule sin_ge_zero)
  have "lanczos (u + 2) = 3 * sin (pi * (u + 2)) * sin (pi * (u + 2) / 3)
                            / ((pi * (u + 2)) * (pi * (u + 2)))"
    using assms by (intro lanczos_inside) simp_all
  moreover have "0 \<le> 3 * sin (pi * (u + 2)) * sin (pi * (u + 2) / 3)
                            / ((pi * (u + 2)) * (pi * (u + 2)))"
    using s1 s2 by simp
  ultimately show ?thesis by simp
qed

lemma lanczos_fourth: "0 \<le> u \<Longrightarrow> 0 \<le> lanczos (u + 3)"
  by (cases "u = 0") (simp_all add: lanczos_3 lanczos_beyond)

lemma kernel_factor:
  fixes a b p v :: real
  shows "3 * a * b / ((p * v) * (p * v)) = (3 * a / (p * p)) * (b / (v * v))"
  by simp

lemma lanczos_pair:
  assumes "0 \<le> u" "u \<le> 1"
  shows "0 \<le> lanczos u + lanczos (u + 1)" and "u < 1 \<Longrightarrow> 0 < lanczos u + lanczos (u + 1)"
proof -
  have strict: "0 < lanczos u + lanczos (u + 1)" if "0 < u" "u < 1"
  proof -
    have "0 < pi * u" "pi * u < pi" using that by simp_all
    then have s: "0 < sin (pi * u)" by (rule sin_gt_zero)
    have "0 \<le> pi * u / 3" "pi * u / 3 \<le> pi / 3" using that by simp_all
    then have "pi * u / 3 / 2 \<le> sin (pi * u / 3)" by (rule sin_ge_half)
    moreover have "2 * u \<le> pi * u"
      using that(1) pi_ge_two by (intro mult_right_mono) simp_all
    ultimately have low: "u / 3 \<le> sin (pi * u / 3)" by simp
    have high: "sin (pi * (u + 1) / 3) \<le> 1" by simp
    have Lu: "lanczos u = 3 * sin (pi * u) * sin (pi * u / 3) / ((pi * u) * (pi * u))"
      using that by (intro lanczos_inside) simp_all
    have "sin (pi * (u + 1)) = - sin (pi * u)"
    proof -
      have "pi * (u + 1) = pi * u + pi" by (simp add: algebra_simps)
      then show ?thesis by simp
    qed
    moreover have "lanczos (u + 1) = 3 * sin (pi * (u + 1)) * sin (pi * (u + 1) / 3)
                                      / ((pi * (u + 1)) * (pi * (u + 1)))"
      using that by (intro lanczos_inside) simp_all
    ultimately have Lu1: "lanczos (u + 1) = - (3 * sin (pi * u) * sin (pi * (u + 1) / 3)
                                      / ((pi * (u + 1)) * (pi * (u + 1))))"
      by simp
    define k where "k = 3 * sin (pi * u) / (pi * pi)"
    have k: "0 < k" using s by (simp add: k_def)
    have sum: "lanczos u + lanczos (u + 1)
                 = k * (sin (pi * u / 3) / (u * u) - sin (pi * (u + 1) / 3) / ((u + 1) * (u + 1)))"
      unfolding Lu Lu1 kernel_factor k_def by (simp add: right_diff_distrib)
    have a: "1 / (3 * u) \<le> sin (pi * u / 3) / (u * u)"
    proof -
      have "u / 3 / (u * u) \<le> sin (pi * u / 3) / (u * u)"
        using low that(1) by (intro divide_right_mono) simp_all
      moreover have "u / 3 / (u * u) = 1 / (3 * u)" using that(1) by (simp add: field_simps)
      ultimately show ?thesis by simp
    qed
    have b: "sin (pi * (u + 1) / 3) / ((u + 1) * (u + 1)) \<le> 1 / ((u + 1) * (u + 1))"
      using high that(1) by (intro divide_right_mono) simp_all
    have c: "1 / ((u + 1) * (u + 1)) < 1 / (3 * u)"
    proof -
      have "0 \<le> (u - 1 / 2) * (u - 1 / 2)" by simp
      then have "3 * u < (u + 1) * (u + 1)" by (simp add: algebra_simps)
      then show ?thesis using that(1) by (simp add: frac_less2)
    qed
    from a b c have "0 < sin (pi * u / 3) / (u * u) - sin (pi * (u + 1) / 3) / ((u + 1) * (u + 1))"
      by linarith
    then show ?thesis unfolding sum using k by simp
  qed
  have pos: "0 < lanczos u + lanczos (u + 1)" if "u < 1"
  proof (cases "u = 0")
    case True
    then show ?thesis by (simp add: lanczos_0 lanczos_1)
  next
    case False
    then show ?thesis using strict that assms(1) by simp
  qed
  show "u < 1 \<Longrightarrow> 0 < lanczos u + lanczos (u + 1)" by (rule pos)
  show "0 \<le> lanczos u + lanczos (u + 1)"
  proof (cases "u < 1")
    case True
    then show ?thesis using pos by simp
  next
    case False
    then have "u = 1" using assms(2) by simp
    then show ?thesis by (simp add: lanczos_1 lanczos_2)
  qed
qed


subsection \<open>The weight sum of a sampling window\<close>

lemma upto_left:
  fixes i :: int
  shows "[i - 1..i] = [i - 1, i]" "[i - 2..i] = [i - 2, i - 1, i]"
    "[i - 3..i] = [i - 3, i - 2, i - 1, i]"
  by (simp_all add: upto_rec1)

lemma upto_right:
  fixes i :: int
  shows "[i + 1..i] = []" "[i + 1..i + 1] = [i + 1]" "[i + 1..i + 2] = [i + 1, i + 2]"
    "[i + 1..i + 3] = [i + 1, i + 2, i + 3]" "[i + 1..i + 4] = [i + 1, i + 2, i + 3, i + 4]"
  by (simp_all add: upto_rec1)

text \<open>
  One axis: the kernel summed over the clamped window around a source coordinate inside
  the source is positive. Left of the coordinate the terms are the first lobe, the first
  negative lobe which the first outweighs, and the second positive lobe; likewise on the
  right.
\<close>

lemma window_sum_pos:
  assumes W: "0 < W" and t: "0 \<le> t" "t < real W"
  shows "0 < sum_list (map (\<lambda>sx. lanczos (t - of_int sx))
                 [max 0 (\<lfloor>t\<rfloor> - 3)..min (int W - 1) (\<lceil>t\<rceil> + 3)])"
proof -
  define i where "i = \<lfloor>t\<rfloor>"
  define f where "f = t - of_int i"
  define u where "u = 1 - f"
  define lo where "lo = max 0 (i - 3)"
  define hi where "hi = min (int W - 1) (\<lceil>t\<rceil> + 3)"
  define g where "g = (\<lambda>sx. lanczos (t - of_int sx))"
  have f: "0 \<le> f" "f < 1" unfolding f_def i_def by linarith+
  have u: "0 \<le> u" "u \<le> 1" using f by (simp_all add: u_def)
  have i0: "0 \<le> i" using t(1) by (simp add: i_def)
  have "i < int W" unfolding i_def using t(2) by (simp add: floor_less_iff)
  then have iW: "i \<le> int W - 1" by simp
  have ceil: "i \<le> \<lceil>t\<rceil>" "\<lceil>t\<rceil> \<le> i + 1" unfolding i_def by linarith+
  have lo: "lo \<le> i" "i - 3 \<le> lo" using i0 by (simp_all add: lo_def)
  have hi: "i \<le> hi" "hi \<le> i + 4" using iW ceil by (simp_all add: hi_def)
  have tf: "t = f + of_int i" by (simp add: f_def)
  have gl: "g i = lanczos f" "g (i - 1) = lanczos (f + 1)" "g (i - 2) = lanczos (f + 2)"
    "g (i - 3) = lanczos (f + 3)"
    by (simp_all add: g_def tf)
  have gr: "g (i + 1) = lanczos u" "g (i + 2) = lanczos (u + 1)" "g (i + 3) = lanczos (u + 2)"
    "g (i + 4) = lanczos (u + 3)"
  proof -
    have "g (i + 1) = lanczos (- u)" "g (i + 2) = lanczos (- (u + 1))"
      "g (i + 3) = lanczos (- (u + 2))" "g (i + 4) = lanczos (- (u + 3))"
      by (simp_all add: g_def tf u_def)
    then show "g (i + 1) = lanczos u" "g (i + 2) = lanczos (u + 1)"
      "g (i + 3) = lanczos (u + 2)" "g (i + 4) = lanczos (u + 3)"
      by (simp_all only: lanczos_even)
  qed
  note fl = lanczos_first_lobe(2) [OF f(1) less_imp_le [OF f(2)] f(2)]
    lanczos_pair(2) [OF f(1) less_imp_le [OF f(2)] f(2)]
    lanczos_third_lobe [OF f(1) less_imp_le [OF f(2)]] lanczos_fourth [OF f(1)]
  note fr = lanczos_first_lobe(1) [OF u] lanczos_pair(1) [OF u]
    lanczos_third_lobe [OF u] lanczos_fourth [OF u(1)]
  from lo consider "lo = i" | "lo = i - 1" | "lo = i - 2" | "lo = i - 3" by linarith
  then have left: "0 < sum_list (map g [lo..i])"
  proof cases
    case 1
    then show ?thesis using fl by (simp add: gl)
  next
    case 2
    then show ?thesis using fl by (simp add: upto_left gl)
  next
    case 3
    then show ?thesis using fl by (simp add: upto_left gl)
  next
    case 4
    then show ?thesis using fl by (simp add: upto_left gl)
  qed
  from hi consider "hi = i" | "hi = i + 1" | "hi = i + 2" | "hi = i + 3" | "hi = i + 4"
    by linarith
  then have right: "0 \<le> sum_list (map g [i + 1..hi])"
  proof cases
    case 1
    then show ?thesis by (simp add: upto_right)
  next
    case 2
    then show ?thesis using fr by (simp add: upto_right gr)
  next
    case 3
    then show ?thesis using fr by (simp add: upto_right gr)
  next
    case 4
    then show ?thesis using fr by (simp add: upto_right gr)
  next
    case 5
    then show ?thesis using fr by (simp add: upto_right gr)
  qed
  have "[lo..hi] = [lo..i] @ [i + 1..hi]"
    using lo(1) hi(1) by (rule upto_split2)
  then have "sum_list (map g [lo..hi]) = sum_list (map g [lo..i]) + sum_list (map g [i + 1..hi])"
    by simp
  with left right have "0 < sum_list (map g [lo..hi])" by linarith
  then show ?thesis by (simp add: g_def lo_def hi_def i_def)
qed


lemma foldl_accumulate_weight:
  "\<exists>r' g' b' a'. foldl (accumulate d sw X Y) (r, g, b, a, w) cells =
      (r', g', b', a',
       w + sum_list (map (\<lambda>(sy, sx). lanczos (X - of_int sx) * lanczos (Y - of_int sy)) cells))"
proof (induction cells arbitrary: r g b a w)
  case Nil
  show ?case by simp
next
  case (Cons cell cells)
  obtain sy sx where cell: "cell = (sy, sx)" by (cases cell)
  obtain r1 g1 b1 a1 where step: "accumulate d sw X Y (r, g, b, a, w) (sy, sx) =
      (r1, g1, b1, a1, w + lanczos (X - of_int sx) * lanczos (Y - of_int sy))"
    by (simp add: accumulate_def Let_def)
  from Cons.IH [of r1 g1 b1 a1 "w + lanczos (X - of_int sx) * lanczos (Y - of_int sy)"]
  show ?case by (simp add: cell step add.assoc)
qed

lemma sum_list_grid:
  fixes F G :: "int \<Rightarrow> real"
  shows "sum_list (map (\<lambda>(sy, sx). F sx * G sy) (concat (map (\<lambda>sy. map (\<lambda>sx. (sy, sx)) xs) ys)))
           = sum_list (map F xs) * sum_list (map G ys)"
proof (induction ys)
  case Nil
  show ?case by simp
next
  case (Cons y ys)
  define h where "h = (\<lambda>(sy :: int, sx :: int). F sx * G sy)"
  have row: "sum_list (map h (map (\<lambda>sx. (y, sx)) xs)) = sum_list (map F xs) * G y"
    by (simp add: h_def comp_def sum_list_mult_const)
  have "sum_list (map h (concat (map (\<lambda>sy. map (\<lambda>sx. (sy, sx)) xs) (y # ys))))
          = sum_list (map h (map (\<lambda>sx. (y, sx)) xs))
            + sum_list (map h (concat (map (\<lambda>sy. map (\<lambda>sx. (sy, sx)) xs) ys)))"
    by simp
  also have "\<dots> = sum_list (map F xs) * G y + sum_list (map F xs) * sum_list (map G ys)"
    using Cons.IH row by (simp add: h_def)
  also have "\<dots> = sum_list (map F xs) * sum_list (map G (y # ys))"
    by (simp add: distrib_left)
  finally show ?case unfolding h_def .
qed

lemma weightSumAt_product:
  "weightSumAt d sw sh tw th x y =
     sum_list (map (\<lambda>sx. lanczos (real x * (real sw / real tw) - of_int sx))
        [max 0 (\<lfloor>real x * (real sw / real tw)\<rfloor> - 3)
          ..min (int sw - 1) (\<lceil>real x * (real sw / real tw)\<rceil> + 3)])
   * sum_list (map (\<lambda>sy. lanczos (real y * (real sh / real th) - of_int sy))
        [max 0 (\<lfloor>real y * (real sh / real th)\<rfloor> - 3)
          ..min (int sh - 1) (\<lceil>real y * (real sh / real th)\<rceil> + 3)])"
proof -
  define X where "X = real x * (real sw / real tw)"
  define Y where "Y = real y * (real sh / real th)"
  from foldl_accumulate_weight [of d sw X Y "Num 0" "Num 0" "Num 0" "Num 0" 0 "windowCells sw sh X Y"]
  have "weightSumAt d sw sh tw th x y =
          sum_list (map (\<lambda>(sy, sx). lanczos (X - of_int sx) * lanczos (Y - of_int sy))
             (windowCells sw sh X Y))"
    by (auto simp add: weightSumAt_def lanczosSums_def X_def Y_def)
  also have "\<dots> = sum_list (map (\<lambda>sx. lanczos (X - of_int sx))
                       [max 0 (\<lfloor>X\<rfloor> - 3)..min (int sw - 1) (\<lceil>X\<rceil> + 3)])
                  * sum_list (map (\<lambda>sy. lanczos (Y - of_int sy))
                       [max 0 (\<lfloor>Y\<rfloor> - 3)..min (int sh - 1) (\<lceil>Y\<rceil> + 3)])"
    unfolding windowCells_def Let_def by (rule sum_list_grid)
  finally show ?thesis unfolding X_def Y_def .
qed

lemma source_coordinate:
  assumes "0 < tw" "x < tw"
  shows "0 \<le> real x * (real sw / real tw)" and "0 < sw \<Longrightarrow> real x * (real sw / real tw) < real sw"
proof -
  show "0 \<le> real x * (real sw / real tw)" by simp
  assume sw: "0 < sw"
  have "real x / real tw < 1" using assms by simp
  then have "real sw * (real x / real tw) < real sw * 1"
    using sw by (intro mult_strict_left_mono) simp_all
  then show "real x * (real sw / real tw) < real sw" by (simp add: mult.commute)
qed

lemma lanczosPixel_divisor:
  "\<exists>r g b a. lanczosPixel d sw sh tw th x y =
      [channel r (weightSumAt d sw sh tw th x y), channel g (weightSumAt d sw sh tw th x y),
       channel b (weightSumAt d sw sh tw th x y), channel a (weightSumAt d sw sh tw th x y)]"
proof -
  obtain r g b a w where
    "lanczosSums d sw sh (real x * (real sw / real tw)) (real y * (real sh / real th)) = (r, g, b, a, w)"
    by (rule prod_cases5)
  then have "lanczosPixel d sw sh tw th x y =
      [channel r (weightSumAt d sw sh tw th x y), channel g (weightSumAt d sw sh tw th x y),
       channel b (weightSumAt d sw sh tw th x y), channel a (weightSumAt d sw sh tw th x y)]"
    by (simp add: lanczosPixel_def weightSumAt_def Let_def)
  then show ?thesis by blast
qed


subsection \<open>The direct pass at the source's own size\<close>

lemma lanczos_of_int: "lanczos (of_int k) = (if k = 0 then 1 else 0)"
proof (cases "k = 0")
  case True
  then show ?thesis by (simp add: lanczos_0)
next
  case False
  have "sin (pi * of_int k) = 0" by (rule sin_npi_int)
  then show ?thesis using False by (simp add: lanczos_def)
qed

lemma sum_list_delta_absent:
  fixes f :: "int \<Rightarrow> real"
  shows "x \<notin> set xs \<Longrightarrow> sum_list (map (\<lambda>s. if s = x then f s else 0) xs) = 0"
  by (induction xs) auto

lemma sum_list_delta:
  fixes f :: "int \<Rightarrow> real"
  assumes "distinct xs" "x \<in> set xs"
  shows "sum_list (map (\<lambda>s. if s = x then f s else 0) xs) = f x"
  using assms by (induction xs) (auto simp add: sum_list_delta_absent)

lemma sum_list_cells:
  fixes T :: "int \<times> int \<Rightarrow> real"
  shows "sum_list (map T (concat (map (\<lambda>sy. map (\<lambda>sx. (sy, sx)) xs) ys)))
           = sum_list (map (\<lambda>sy. sum_list (map (\<lambda>sx. T (sy, sx)) xs)) ys)"
  by (induction ys) (simp_all add: comp_def)

text \<open>At integer source coordinates only the cell under the pixel has a weight.\<close>

lemma sum_at_pixel:
  fixes v :: "int \<times> int \<Rightarrow> real"
  assumes "distinct xs" "x \<in> set xs" "distinct ys" "y \<in> set ys"
  shows "sum_list (map (\<lambda>(sy, sx). v (sy, sx) * (lanczos (of_int x - of_int sx)
                                                    * lanczos (of_int y - of_int sy)))
           (concat (map (\<lambda>sy. map (\<lambda>sx. (sy, sx)) xs) ys))) = v (y, x)"
proof -
  have k: "lanczos (of_int a - of_int b) = (if b = a then 1 else 0)" for a b :: int
    using lanczos_of_int [of "a - b"] by auto
  have inner: "sum_list (map (\<lambda>sx. v (sy, sx) * (lanczos (of_int x - of_int sx)
                                                    * lanczos (of_int y - of_int sy))) xs)
                 = (if sy = y then v (sy, x) else 0)" for sy
  proof -
    have "(\<lambda>sx. v (sy, sx) * (lanczos (of_int x - of_int sx) * lanczos (of_int y - of_int sy)))
            = (\<lambda>sx. if sx = x then (if sy = y then v (sy, sx) else 0) else 0)"
      by (auto simp add: k)
    then show ?thesis using sum_list_delta [OF assms(1,2)] by simp
  qed
  have "sum_list (map (\<lambda>(sy, sx). v (sy, sx) * (lanczos (of_int x - of_int sx)
                                                    * lanczos (of_int y - of_int sy)))
           (concat (map (\<lambda>sy. map (\<lambda>sx. (sy, sx)) xs) ys)))
        = sum_list (map (\<lambda>sy. if sy = y then v (sy, x) else 0) ys)"
    unfolding sum_list_cells by (simp add: inner)
  also have "\<dots> = v (y, x)" by (rule sum_list_delta [OF assms(3,4)])
  finally show ?thesis .
qed

lemma foldl_accumulate_finite:
  assumes "\<forall>(sy, sx) \<in> set cells. 0 \<le> sx \<and> sx < int sw \<and> 0 \<le> sy \<and> sy < int sh"
    and "length d = 4 * sw * sh"
  shows "foldl (accumulate d sw X Y) (Num r, Num g, Num b, Num a, w) cells =
      (Num (r + sum_list (map (\<lambda>(sy, sx). real (d ! nat ((sy * int sw + sx) * 4))
               * (lanczos (X - of_int sx) * lanczos (Y - of_int sy))) cells)),
       Num (g + sum_list (map (\<lambda>(sy, sx). real (d ! (nat ((sy * int sw + sx) * 4) + 1))
               * (lanczos (X - of_int sx) * lanczos (Y - of_int sy))) cells)),
       Num (b + sum_list (map (\<lambda>(sy, sx). real (d ! (nat ((sy * int sw + sx) * 4) + 2))
               * (lanczos (X - of_int sx) * lanczos (Y - of_int sy))) cells)),
       Num (a + sum_list (map (\<lambda>(sy, sx). real (d ! (nat ((sy * int sw + sx) * 4) + 3))
               * (lanczos (X - of_int sx) * lanczos (Y - of_int sy))) cells)),
       w + sum_list (map (\<lambda>(sy, sx). lanczos (X - of_int sx) * lanczos (Y - of_int sy)) cells))"
  using assms(1)
proof (induction cells arbitrary: r g b a w)
  case Nil
  show ?case by simp
next
  case (Cons cell cells)
  obtain sy sx where cell: "cell = (sy, sx)" by (cases cell)
  from Cons.prems have range: "0 \<le> sx" "sx < int sw" "0 \<le> sy" "sy < int sh"
    and rest: "\<forall>(sy, sx) \<in> set cells. 0 \<le> sx \<and> sx < int sw \<and> 0 \<le> sy \<and> sy < int sh"
    by (simp_all add: cell)
  have "sy * int sw + sx < int sh * int sw"
  proof -
    have "sy + 1 \<le> int sh" using range(4) by simp
    then have "(sy + 1) * int sw \<le> int sh * int sw" by (intro mult_right_mono) simp_all
    then show ?thesis using range(2) by (simp add: algebra_simps)
  qed
  moreover have "0 \<le> sy * int sw + sx" using range by simp
  ultimately obtain k where k: "sy * int sw + sx = int k" "k < sh * sw"
    by (metis nat_0_le of_nat_less_iff of_nat_mult)
  have "nat (int k * 4) = k * 4" by (simp add: nat_mult_distrib)
  moreover have "k * 4 + 3 < 4 * (sh * sw)" using k(2) by linarith
  ultimately have "nat ((sy * int sw + sx) * 4) + 3 < 4 * sw * sh"
    unfolding k(1) by (simp add: mult.commute mult.left_commute)
  then have inb: "nat ((sy * int sw + sx) * 4) < length d" "nat ((sy * int sw + sx) * 4) + 1 < length d"
    "nat ((sy * int sw + sx) * 4) + 2 < length d" "nat ((sy * int sw + sx) * 4) + 3 < length d"
    using assms(2) by simp_all
  define W where "W = lanczos (X - of_int sx) * lanczos (Y - of_int sy)"
  define idx where "idx = nat ((sy * int sw + sx) * 4)"
  have step: "accumulate d sw X Y (Num r, Num g, Num b, Num a, w) (sy, sx) =
      (Num (r + real (d ! idx) * W), Num (g + real (d ! (idx + 1)) * W),
       Num (b + real (d ! (idx + 2)) * W), Num (a + real (d ! (idx + 3)) * W), w + W)"
    using inb by (simp add: accumulate_def Let_def sample_def W_def idx_def)
  show ?case
    unfolding cell foldl_Cons step Cons.IH [OF rest]
    by (simp add: W_def idx_def add.assoc)
qed


lemma channel_identity:
  assumes "v \<le> 255"
  shows "channel (Num (real v)) 1 = v"
proof -
  have r: "round_half_up (real v) = int v" unfolding round_half_up_def by linarith
  have e: "round_half_even (real v) = int v" by (simp add: round_half_even_def)
  show ?thesis using assms by (simp add: channel_def Utils_clamp_def r e)
qed

lemma lanczosPixel_identity:
  assumes size: "0 < w" "0 < h" and len: "length d = 4 * w * h"
    and bytes: "\<forall>b \<in> set d. b \<le> 255" and xy: "x < w" "y < h"
  shows "lanczosPixel d w h w h x y =
           [d ! ((y * w + x) * 4), d ! ((y * w + x) * 4 + 1),
            d ! ((y * w + x) * 4 + 2), d ! ((y * w + x) * 4 + 3)]"
proof -
  define xs where "xs = [max 0 (int x - 3)..min (int w - 1) (int x + 3)]"
  define ys where "ys = [max 0 (int y - 3)..min (int h - 1) (int y + 3)]"
  define cells where "cells = concat (map (\<lambda>sy. map (\<lambda>sx. (sy, sx)) xs) ys)"
  have X: "real x * (real w / real w) = of_int (int x)" using size by simp
  have Y: "real y * (real h / real h) = of_int (int y)" using size by simp
  have cells: "windowCells w h (of_int (int x)) (of_int (int y)) = cells"
    by (simp add: windowCells_def cells_def xs_def ys_def)
  have mem: "int x \<in> set xs" "int y \<in> set ys" "distinct xs" "distinct ys"
    using xy by (simp_all add: xs_def ys_def)
  have range: "\<forall>(sy, sx) \<in> set cells. 0 \<le> sx \<and> sx < int w \<and> 0 \<le> sy \<and> sy < int h"
    by (auto simp add: cells_def xs_def ys_def)
  have idx: "nat ((int y * int w + int x) * 4) = (y * w + x) * 4"
  proof -
    have "(int y * int w + int x) * 4 = int ((y * w + x) * 4)" by simp
    then show ?thesis by (simp only: nat_int)
  qed
  note at = sum_at_pixel [OF mem(3) mem(1) mem(4) mem(2), folded cells_def]
  have one: "sum_list (map (\<lambda>(sy, sx). lanczos (of_int (int x) - of_int sx)
               * lanczos (of_int (int y) - of_int sy)) cells) = 1"
    using at [of "\<lambda>c. 1"] by simp
  have a0: "sum_list (map (\<lambda>(sy, sx). real (d ! nat ((sy * int w + sx) * 4))
               * (lanczos (of_int (int x) - of_int sx) * lanczos (of_int (int y) - of_int sy))) cells)
             = real (d ! ((y * w + x) * 4))"
    using at [of "\<lambda>(sy, sx). real (d ! nat ((sy * int w + sx) * 4))"]
    by (simp only: prod.case idx)
  have a1: "sum_list (map (\<lambda>(sy, sx). real (d ! (nat ((sy * int w + sx) * 4) + 1))
               * (lanczos (of_int (int x) - of_int sx) * lanczos (of_int (int y) - of_int sy))) cells)
             = real (d ! ((y * w + x) * 4 + 1))"
    using at [of "\<lambda>(sy, sx). real (d ! (nat ((sy * int w + sx) * 4) + 1))"]
    by (simp only: prod.case idx)
  have a2: "sum_list (map (\<lambda>(sy, sx). real (d ! (nat ((sy * int w + sx) * 4) + 2))
               * (lanczos (of_int (int x) - of_int sx) * lanczos (of_int (int y) - of_int sy))) cells)
             = real (d ! ((y * w + x) * 4 + 2))"
    using at [of "\<lambda>(sy, sx). real (d ! (nat ((sy * int w + sx) * 4) + 2))"]
    by (simp only: prod.case idx)
  have a3: "sum_list (map (\<lambda>(sy, sx). real (d ! (nat ((sy * int w + sx) * 4) + 3))
               * (lanczos (of_int (int x) - of_int sx) * lanczos (of_int (int y) - of_int sy))) cells)
             = real (d ! ((y * w + x) * 4 + 3))"
    using at [of "\<lambda>(sy, sx). real (d ! (nat ((sy * int w + sx) * 4) + 3))"]
    by (simp only: prod.case idx)
  have sums: "lanczosSums d w h (of_int (int x)) (of_int (int y)) =
      (Num (real (d ! ((y * w + x) * 4))), Num (real (d ! ((y * w + x) * 4 + 1))),
       Num (real (d ! ((y * w + x) * 4 + 2))), Num (real (d ! ((y * w + x) * 4 + 3))), 1)"
    unfolding lanczosSums_def cells
      foldl_accumulate_finite [OF range len, of "of_int (int x)" "of_int (int y)" 0 0 0 0 0]
      a0 a1 a2 a3 one
    by simp
  have "(y * w + x) * 4 + 3 < length d"
  proof -
    have "y * w + x < h * w"
    proof -
      have "(y + 1) * w \<le> h * w" using xy(2) by (intro mult_le_mono1) simp
      then show ?thesis using xy(1) by simp
    qed
    moreover have "k * 4 + 3 < 4 * n" if "k < n" for k n :: nat
      using that by linarith
    ultimately have "(y * w + x) * 4 + 3 < 4 * (h * w)" by blast
    then show ?thesis using len by (simp add: mult.commute mult.left_commute)
  qed
  then have b: "d ! ((y * w + x) * 4) \<le> 255" "d ! ((y * w + x) * 4 + 1) \<le> 255"
    "d ! ((y * w + x) * 4 + 2) \<le> 255" "d ! ((y * w + x) * 4 + 3) \<le> 255"
    using bytes by (simp_all add: all_set_conv_all_nth)
  show ?thesis
    unfolding lanczosPixel_def Let_def X Y sums
    using b by (simp add: channel_identity)
qed


lemma quads_take:
  assumes "n * 4 \<le> length d"
  shows "concat (map (\<lambda>k. [d ! (k * 4), d ! (k * 4 + 1), d ! (k * 4 + 2), d ! (k * 4 + 3)]) [0..<n])
           = take (n * 4) d"
  using assms
proof (induction n)
  case 0
  show ?case by simp
next
  case (Suc n)
  define m where "m = n * 4"
  have lt: "m < length d" "m + 1 < length d" "m + 2 < length d" "m + 3 < length d"
    using Suc.prems by (simp_all add: m_def)
  have t1: "take (m + 1) d = take m d @ [d ! m]"
    using lt(1) by (simp add: take_Suc_conv_app_nth)
  have t2: "take (m + 2) d = take (m + 1) d @ [d ! (m + 1)]"
    using lt(2) take_Suc_conv_app_nth [of "m + 1" d] by simp
  have t3: "take (m + 3) d = take (m + 2) d @ [d ! (m + 2)]"
    using lt(3) take_Suc_conv_app_nth [of "m + 2" d] by (simp add: numeral_3_eq_3)
  have t4: "take (m + 4) d = take (m + 3) d @ [d ! (m + 3)]"
    using lt(4) take_Suc_conv_app_nth [of "m + 3" d] by (simp add: numeral_eq_Suc)
  have tk: "take (m + 4) d = take m d @ [d ! m, d ! (m + 1), d ! (m + 2), d ! (m + 3)]"
    unfolding t4 t3 t2 t1 by simp
  have ih: "concat (map (\<lambda>k. [d ! (k * 4), d ! (k * 4 + 1), d ! (k * 4 + 2), d ! (k * 4 + 3)]) [0..<n])
           = take m d"
    using Suc.IH Suc.prems by (simp add: m_def)
  have "concat (map (\<lambda>k. [d ! (k * 4), d ! (k * 4 + 1), d ! (k * 4 + 2), d ! (k * 4 + 3)]) [0..<Suc n])
          = take m d @ [d ! m, d ! (m + 1), d ! (m + 2), d ! (m + 3)]"
    unfolding upt_Suc_append [OF le0] map_append concat_append ih by (simp add: m_def)
  also have "\<dots> = take (m + 4) d" by (simp only: tk)
  also have "m + 4 = Suc n * 4" by (simp add: m_def)
  finally show ?case .
qed

lemma upt_shift: "[a..<a + b] = map (\<lambda>x. a + x) [0..<b]"
  by (simp add: list_eq_iff_nth_eq)

lemma rows_flatten:
  "concat (map (\<lambda>y. concat (map (\<lambda>x. q (y * w + x)) [0..<w])) [0..<h])
     = concat (map q [0..<h * w])"
proof (induction h)
  case 0
  show ?case by simp
next
  case (Suc h)
  have "[0..<h * w + w] = [0..<h * w] @ [h * w..<h * w + w]"
    by (rule upt_add_eq_append) simp
  then have split: "[0..<h * w + w] = [0..<h * w] @ map (\<lambda>x. h * w + x) [0..<w]"
    by (simp only: upt_shift [symmetric])
  have "concat (map q [0..<Suc h * w]) = concat (map q [0..<h * w + w])"
    by (simp add: add.commute [of w])
  also have "\<dots> = concat (map q [0..<h * w]) @ concat (map (\<lambda>x. q (h * w + x)) [0..<w])"
    unfolding split by (simp add: comp_def)
  finally show ?case
    unfolding upt_Suc_append [OF le0] map_append concat_append Suc.IH by simp
qed

text \<open>
  Over exact arithmetic a direct Lanczos pass to the source's own size returns the
  source's bytes: every offset is an integer, and the kernel is 1 at 0 and 0 at every
  other integer.
\<close>

lemma lanczosResample_same_size:
  assumes "0 < width src" "0 < height src"
    and "length (data src) = 4 * width src * height src"
    and "\<forall>b \<in> set (data src). b \<le> 255"
  shows "\<exists>c. lanczosResample src (width src) (height src) cb seen
               = (chunkLoop 0 (height src) cb seen, Inr c)
           \<and> width c = width src \<and> height c = height src \<and> data c = data src"
proof -
  define d where "d = data src"
  define w where "w = width src"
  define h where "h = height src"
  define q where "q = (\<lambda>k. [d ! (k * 4), d ! (k * 4 + 1), d ! (k * 4 + 2), d ! (k * 4 + 3)])"
  have len: "length d = 4 * w * h" using assms(3) by (simp add: d_def w_def h_def)
  have bytes: "\<forall>b \<in> set d. b \<le> 255" using assms(4) by (simp add: d_def)
  have size: "0 < w" "0 < h" using assms(1,2) by (simp_all add: w_def h_def)
  have row: "map (\<lambda>x. lanczosPixel d w h w h x y) [0..<w] = map (\<lambda>x. q (y * w + x)) [0..<w]"
    if "y < h" for y
    using lanczosPixel_identity [OF size len bytes _ that] by (simp add: q_def)
  have "map (\<lambda>y. concat (map (\<lambda>x. lanczosPixel d w h w h x y) [0..<w])) [0..<h]
          = map (\<lambda>y. concat (map (\<lambda>x. q (y * w + x)) [0..<w])) [0..<h]"
    by (rule map_cong) (simp_all add: row)
  then have "concat (map (\<lambda>y. concat (map (\<lambda>x. lanczosPixel d w h w h x y) [0..<w])) [0..<h])
          = concat (map q [0..<h * w])"
    by (simp only: rows_flatten)
  also have "\<dots> = take (h * w * 4) d"
    unfolding q_def by (rule quads_take) (simp add: len)
  also have "\<dots> = d" using len by simp
  finally have "concat (map (\<lambda>y. concat (map (\<lambda>x. lanczosPixel d w h w h x y) [0..<w])) [0..<h]) = d" .
  then show ?thesis
    using size by (simp add: lanczosResample_def d_def [symmetric] w_def [symmetric] h_def [symmetric])
qed


lemma upscale_lanczos_same_size:
  assumes "0 < naturalWidth img" "0 < naturalHeight img"
    and "naturalWidth img < 2 ^ 53" "naturalHeight img < 2 ^ 53"
    and "length (pixels img) = 4 * naturalWidth img * naturalHeight img"
    and "\<forall>b \<in> set (pixels img). b \<le> 255"
  shows "\<exists>seen c. upscale B (Some img) (naturalWidth img) (naturalHeight img) Lanczos cb
                   = Some (seen, Inr c)
           \<and> width c = naturalWidth img \<and> height c = naturalHeight img
           \<and> data c = pixels img"
proof -
  define src where "src = \<lparr>width = naturalWidth img, height = naturalHeight img, data = pixels img\<rparr>"
  have src: "0 < width src" "0 < height src" "length (data src) = 4 * width src * height src"
    "\<forall>b \<in> set (data src). b \<le> 255" "binary64 (real (width src) / real (width src)) \<le> 2"
    using assms by (simp_all add: src_def binary64_1)
  have fit: "fitWidth img (naturalWidth img) (naturalHeight img) = width src"
    "fitHeight img (naturalWidth img) (naturalHeight img) = height src"
    using fit_same_size [OF assms(1-4)] by (simp_all add: src_def)
  from lanczosResample_same_size [OF src(1-4), of cb "report cb (report cb [] 0) 10"]
  obtain c where c: "lanczosResample src (width src) (height src) cb (report cb (report cb [] 0) 10)
               = (chunkLoop 0 (height src) cb (report cb (report cb [] 0) 10), Inr c)"
    "width c = width src" "height c = height src" "data c = data src" by blast
  have "upscale B (Some img) (naturalWidth img) (naturalHeight img) Lanczos cb
          = Some (report cb (chunkLoop 0 (height src) cb (report cb (report cb [] 0) 10)) 100, Inr c)"
    unfolding upscale_unfold src_def [symmetric] fit
    by (simp add: runAlgorithm_def upscaleLanczos_direct [OF src(1,5)] c(1))
  then show ?thesis using c(2-4) by (auto simp add: src_def)
qed

text \<open>
  Bilinear and bicubic at the source's own size are one draw of the whole source on a
  fresh canvas of that size: the bicubic plan has no doubling step.
\<close>

lemma draw_same_size:
  assumes "sameSizeCopy B src" "length (data src) = 4 * width src * height src"
  shows "data (repaint (createCanvas (width src) (height src))
                 (smoothing B src (whole src) (createCanvas (width src) (height src)))) = data src"
  using assms by (simp add: repaint_def sameSizeCopy_def list_eq_iff_nth_eq)

lemma planSteps_same_size: "planSteps w h w h steps = Some steps"
  by (subst planSteps.simps) simp

lemma upscale_smoothing_same_size:
  assumes "0 < naturalWidth img" "0 < naturalHeight img"
    and "naturalWidth img < 2 ^ 53" "naturalHeight img < 2 ^ 53"
    and "length (pixels img) = 4 * naturalWidth img * naturalHeight img"
    and "alg \<noteq> Lanczos"
    and "sameSizeCopy B \<lparr>width = naturalWidth img, height = naturalHeight img, data = pixels img\<rparr>"
  shows "\<exists>seen c. upscale B (Some img) (naturalWidth img) (naturalHeight img) alg cb
                   = Some (seen, Inr c)
           \<and> width c = naturalWidth img \<and> height c = naturalHeight img
           \<and> data c = pixels img"
proof -
  define src where "src = \<lparr>width = naturalWidth img, height = naturalHeight img, data = pixels img\<rparr>"
  have src: "0 < width src" "0 < height src" "length (data src) = 4 * width src * height src"
    "sameSizeCopy B src"
    using assms by (simp_all add: src_def)
  have fit: "fitWidth img (naturalWidth img) (naturalHeight img) = width src"
    "fitHeight img (naturalWidth img) (naturalHeight img) = height src"
    using fit_same_size [OF assms(1-4)] by (simp_all add: src_def)
  define c where "c = repaint (createCanvas (width src) (height src))
                        (smoothing B src (whole src) (createCanvas (width src) (height src)))"
  have c: "width c = width src" "height c = height src" "data c = data src"
    using draw_same_size [OF src(4,3)] by (simp_all add: c_def)
  have draw: "drawImage B src (whole src) (createCanvas (width src) (height src)) = Inr c"
    unfolding c_def by (rule drawImage_whole [OF src(1,2)])
  have "\<exists>seen. runAlgorithm B alg src (width src) (height src) cb (report cb (report cb [] 0) 10)
                 = Some (seen, Inr c)"
  proof (cases alg)
    case Bilinear
    then show ?thesis by (simp add: runAlgorithm_def upscaleBilinear_def draw)
  next
    case Bicubic
    then show ?thesis
      by (simp add: runAlgorithm_def upscaleBicubic_def planSteps_same_size finalSteps_def draw)
  next
    case Lanczos
    with assms(6) show ?thesis by simp
  qed
  then obtain seen where "runAlgorithm B alg src (width src) (height src) cb
      (report cb (report cb [] 0) 10) = Some (seen, Inr c)" by blast
  then have "upscale B (Some img) (naturalWidth img) (naturalHeight img) alg cb
          = Some (report cb seen 100, Inr c)"
    unfolding upscale_unfold src_def [symmetric] fit by simp
  then show ?thesis using c by (auto simp add: src_def)
qed

subsection \<open>The size of the returned buffer (claim C1)\<close>

text \<open>
  Claim C1 says that for every loaded image, every positive target size and each of the
  three algorithms, \<^verbatim>\<open>upscale\<close> returns a buffer of exactly
  \<open>targetWidth \<times> targetHeight \<times> 4\<close> bytes, each in \<open>[0, 255]\<close>. The code first
  fits the target to the aspect ratio of the source (lines 48 to 51). For a source of one
  pixel and a target of 1 by 2 it returns 4 bytes, not 8:
\<close>

theorem upscale_buffer_counterexample:
  "bufferLength (upscale plainBrowser (Some onePixel) 1 2 Bilinear False) = Some 4
   \<and> (4::nat) \<noteq> 1 * 2 * 4"
proof -
  have h: "0 < naturalWidth onePixel" "0 < naturalHeight onePixel"
    "0 < fitWidth onePixel 1 2" "0 < fitHeight onePixel 1 2"
    using fit_onePixel_1_2 by (simp_all add: onePixel_def)
  from bufferLength_output [OF h, of plainBrowser Bilinear False] show ?thesis
    using fit_onePixel_1_2 by (simp add: outputWidth_def outputHeight_def)
qed

text \<open>
  C1 as amended: for every loaded image, every target size and each of the three
  algorithms, the buffer \<^verbatim>\<open>upscale\<close> returns has exactly
  \<open>outputWidth \<times> outputHeight \<times> 4\<close> bytes, each of them in \<open>[0, 255]\<close>, where the
  output dimensions are the fitted ones, \<open>newWidth = round(srcWidth \<times> s)\<close> by
  \<open>newHeight = round(srcHeight \<times> s)\<close> with
  \<open>s = min(targetWidth / srcWidth, targetHeight / srcHeight)\<close>, and on the staged
  Lanczos path (\<open>t = newWidth / srcWidth\<close> above 2) \<open>round(srcWidth \<times> t)\<close> by
  \<open>round(srcHeight \<times> t)\<close>, every quotient and product rounded to a double. A buffer is
  returned whenever the fitted dimensions are both at least 1.
\<close>

theorem upscale_buffer_fitted:
  assumes "0 < naturalWidth img" "0 < naturalHeight img"
  shows "(0 < fitWidth img tw th \<and> 0 < fitHeight img tw th \<longrightarrow>
            (\<exists>seen c. upscale B (Some img) tw th alg cb = Some (seen, Inr c)))
       \<and> (\<forall>seen c. upscale B (Some img) tw th alg cb = Some (seen, Inr c) \<longrightarrow>
            length (data c) = outputWidth img tw th alg * outputHeight img tw th alg * 4
          \<and> (\<forall>b \<in> set (data c). b \<le> 255))"
proof -
  from upscale_log [OF assms, of B tw th alg cb]
  obtain vs res where run: "upscale B (Some img) tw th alg cb =
        Some ((if cb then [0, 10] @ vs @ (case res of Inl e \<Rightarrow> [] | Inr c \<Rightarrow> [100]) else []), res)"
    and ok: "0 < fitWidth img tw th \<and> 0 < fitHeight img tw th \<longrightarrow> (\<exists>c. res = Inr c)"
    and ret: "\<forall>c. res = Inr c \<longrightarrow>
                 length (data c) = 4 * width c * height c \<and> (\<forall>v \<in> set (data c). v \<le> 255)
               \<and> width c = outputWidth img tw th alg \<and> height c = outputHeight img tw th alg"
    by (elim exE conjE) iprover
  have returns: "0 < fitWidth img tw th \<and> 0 < fitHeight img tw th \<longrightarrow>
            (\<exists>seen c. upscale B (Some img) tw th alg cb = Some (seen, Inr c))"
    using ok run by auto
  have bitmap: "length (data c) = outputWidth img tw th alg * outputHeight img tw th alg * 4
          \<and> (\<forall>b \<in> set (data c). b \<le> 255)"
    if "upscale B (Some img) tw th alg cb = Some (seen, Inr c)" for seen c
  proof -
    from that run have "res = Inr c" by simp
    with ret have "length (data c) = 4 * width c * height c" "\<forall>v \<in> set (data c). v \<le> 255"
      "width c = outputWidth img tw th alg" "height c = outputHeight img tw th alg" by blast+
    then show ?thesis by simp
  qed
  from returns bitmap show ?thesis by blast
qed

theorem upscale_buffer_fitted_witness:
  "0 < naturalWidth tallImage \<and> 0 < naturalHeight tallImage
   \<and> 0 < fitWidth tallImage 8 15 \<and> 0 < fitHeight tallImage 8 15
   \<and> bufferLength (upscale plainBrowser (Some tallImage) 8 15 Bilinear False) = Some 420
   \<and> bufferLength (upscale plainBrowser (Some onePixel) 3 3 Lanczos False) = Some 36"
proof -
  have h: "0 < naturalWidth tallImage" "0 < naturalHeight tallImage"
    "0 < fitWidth tallImage 8 15" "0 < fitHeight tallImage 8 15"
    using fit_tallImage_8_15 by (simp_all add: tallImage_def)
  have out: "outputWidth tallImage 8 15 Bilinear * outputHeight tallImage 8 15 Bilinear * 4 = 420"
    using fit_tallImage_8_15 by (simp add: outputWidth_def outputHeight_def)
  have g: "0 < naturalWidth onePixel" "0 < naturalHeight onePixel"
    "0 < fitWidth onePixel 3 3" "0 < fitHeight onePixel 3 3"
    using fit_onePixel_3_3 by (simp_all add: onePixel_def)
  have staged: "outputWidth onePixel 3 3 Lanczos * outputHeight onePixel 3 3 Lanczos * 4 = 36"
    using fit_onePixel_3_3
    by (simp add: outputWidth_def outputHeight_def onePixel_def binary64_numeral round_half_up_def)
  from upscale_buffer_fitted [OF h(1,2), of 8 15 plainBrowser Bilinear False]
    upscale_buffer_fitted [OF g(1,2), of 3 3 plainBrowser Lanczos False]
  show ?thesis
    using h g out staged by (auto simp add: bufferLength_def returned_def)
qed


subsection \<open>Aspect fitting (claim C2)\<close>

text \<open>
  Claim C2 says that the resampler performs no aspect fitting: the output has exactly the
  dimensions it was given. \<^verbatim>\<open>upscale\<close> does fit them: for a source of 2 by 1 and a
  requested 2 by 2 the output is 2 by 1.
\<close>

theorem upscale_dimensions_counterexample:
  "dimensions (upscale plainBrowser (Some twoPixels) 2 2 Lanczos False) = Some (2, 1)
   \<and> (2::nat, 1::nat) \<noteq> (2, 2)"
proof -
  have h: "0 < naturalWidth twoPixels" "0 < naturalHeight twoPixels"
    "0 < fitWidth twoPixels 2 2" "0 < fitHeight twoPixels 2 2"
    using fit_twoPixels_2_2 by (simp_all add: twoPixels_def)
  have "lanczosScale twoPixels 2 2 = 1"
    using fit_twoPixels_2_2 by (simp add: lanczosScale_def twoPixels_def binary64_1)
  then have out: "outputWidth twoPixels 2 2 Lanczos = 2" "outputHeight twoPixels 2 2 Lanczos = 1"
    using fit_twoPixels_2_2 by (simp_all add: outputWidth_def outputHeight_def)
  from dimensions_output [OF h, of plainBrowser Lanczos False] show ?thesis
    using out by simp
qed

text \<open>
  C2 as amended: the resample operation fits the requested size to the aspect ratio of
  the source itself. For every loaded image, every request and each algorithm, the
  canvas it returns has the dimensions \<open>outputWidth\<close> by \<open>outputHeight\<close>: the fitted
  \<open>round(srcWidth \<times> s)\<close> by \<open>round(srcHeight \<times> s)\<close>,
  \<open>s = min(targetWidth / srcWidth, targetHeight / srcHeight)\<close>, and on the staged
  Lanczos path \<open>round(srcWidth \<times> t)\<close> by \<open>round(srcHeight \<times> t)\<close> with \<open>t\<close> the
  fitted width over the source width, in double arithmetic. These are the requested
  dimensions whenever the request has the aspect ratio of the source (and is below
  \<open>2\<^sup>5\<^sup>0\<close> pixels a side). A canvas is returned whenever the fitted dimensions are
  both at least 1.
\<close>

theorem upscale_dimensions_fitted:
  assumes "0 < naturalWidth img" "0 < naturalHeight img"
  shows "(0 < fitWidth img tw th \<and> 0 < fitHeight img tw th \<longrightarrow>
            (\<exists>seen c. upscale B (Some img) tw th alg cb = Some (seen, Inr c)))
       \<and> (\<forall>seen c. upscale B (Some img) tw th alg cb = Some (seen, Inr c) \<longrightarrow>
            width c = outputWidth img tw th alg \<and> height c = outputHeight img tw th alg
          \<and> (tw * naturalHeight img = th * naturalWidth img \<and> tw < 2 ^ 50 \<and> th < 2 ^ 50 \<longrightarrow>
               width c = tw \<and> height c = th))"
proof -
  from upscale_log [OF assms, of B tw th alg cb]
  obtain vs res where run: "upscale B (Some img) tw th alg cb =
        Some ((if cb then [0, 10] @ vs @ (case res of Inl e \<Rightarrow> [] | Inr c \<Rightarrow> [100]) else []), res)"
    and ok: "0 < fitWidth img tw th \<and> 0 < fitHeight img tw th \<longrightarrow> (\<exists>c. res = Inr c)"
    and ret: "\<forall>c. res = Inr c \<longrightarrow>
                 length (data c) = 4 * width c * height c \<and> (\<forall>v \<in> set (data c). v \<le> 255)
               \<and> width c = outputWidth img tw th alg \<and> height c = outputHeight img tw th alg"
    by (elim exE conjE) iprover
  have returns: "0 < fitWidth img tw th \<and> 0 < fitHeight img tw th \<longrightarrow>
            (\<exists>seen c. upscale B (Some img) tw th alg cb = Some (seen, Inr c))"
    using ok run by auto
  have dims: "width c = outputWidth img tw th alg \<and> height c = outputHeight img tw th alg
          \<and> (tw * naturalHeight img = th * naturalWidth img \<and> tw < 2 ^ 50 \<and> th < 2 ^ 50 \<longrightarrow>
               width c = tw \<and> height c = th)"
    if "upscale B (Some img) tw th alg cb = Some (seen, Inr c)" for seen c
  proof -
    from that run have "res = Inr c" by simp
    with ret have wh: "width c = outputWidth img tw th alg" "height c = outputHeight img tw th alg"
      by blast+
    have "width c = tw \<and> height c = th"
      if "tw * naturalHeight img = th * naturalWidth img \<and> tw < 2 ^ 50 \<and> th < 2 ^ 50"
      using fit_exact(3,4) [OF assms, of tw th alg] that wh by simp
    with wh show ?thesis by blast
  qed
  from returns dims show ?thesis by blast
qed

theorem upscale_dimensions_fitted_witness:
  "0 < naturalWidth twoPixels \<and> 0 < naturalHeight twoPixels
   \<and> 0 < fitWidth twoPixels 6 3 \<and> 0 < fitHeight twoPixels 6 3
   \<and> 2 < lanczosScale twoPixels 6 3
   \<and> 6 * naturalHeight twoPixels = 3 * naturalWidth twoPixels
   \<and> dimensions (upscale plainBrowser (Some twoPixels) 6 3 Lanczos False) = Some (6, 3)"
proof -
  have h: "0 < naturalWidth twoPixels" "0 < naturalHeight twoPixels"
    "0 < fitWidth twoPixels 6 3" "0 < fitHeight twoPixels 6 3" "2 < lanczosScale twoPixels 6 3"
    using fit_twoPixels_6_3 by (simp_all add: twoPixels_def)
  have aspect: "6 * naturalHeight twoPixels = 3 * naturalWidth twoPixels"
    "(6::nat) < 2 ^ 50" "(3::nat) < 2 ^ 50"
    by (simp_all add: twoPixels_def)
  from upscale_dimensions_fitted [OF h(1,2), of 6 3 plainBrowser Lanczos False] show ?thesis
    using h aspect by (auto simp add: dimensions_def returned_def)
qed


subsection \<open>One direct pass or doubling passes (claim C6)\<close>

text \<open>
  Claim C6: for every source that is not empty, the lanczos strategy is a single direct
  Lanczos pass when the scale \<open>targetWidth / sourceWidth\<close>, the double the code
  computes, is at most 2; when it is larger it is exactly \<open>ceil(log2(scale))\<close> doubling
  passes, each resampling the output of the pass before it to the size given by
  \<open>nextScale = min(currentScale \<times> 2, targetScale)\<close>. With an observer, each of these
  passes reports once.
\<close>

theorem upscaleLanczos_strategy:
  assumes "0 < width src" "0 < height src"
  shows "upscaleLanczos src tw th cb seen =
           Some (if binary64 (real tw / real (width src)) \<le> 2
                 then lanczosResample src tw th cb seen
                 else stagedPasses (width src) (height src) (binary64 (real tw / real (width src)))
                        \<lceil>log 2 (binary64 (real tw / real (width src)))\<rceil> cb
                        (nat \<lceil>log 2 (binary64 (real tw / real (width src)))\<rceil>) src 1 0 seen)
       \<and> (2 < binary64 (real tw / real (width src)) \<longrightarrow>
            (\<exists>c. upscaleLanczos src tw th True seen =
                   Some (seen @ map (\<lambda>j. 10 + 80 * real (j + 1)
                                       / real_of_int \<lceil>log 2 (binary64 (real tw / real (width src)))\<rceil>)
                                  [0..<nat \<lceil>log 2 (binary64 (real tw / real (width src)))\<rceil>], Inr c)))"
proof -
  define ts where "ts = binary64 (real tw / real (width src))"
  have eq: "upscaleLanczos src tw th cb seen =
           Some (if ts \<le> 2
                 then lanczosResample src tw th cb seen
                 else stagedPasses (width src) (height src) ts \<lceil>log 2 ts\<rceil> cb
                        (nat \<lceil>log 2 ts\<rceil>) src 1 0 seen)"
    using upscaleLanczos_direct [OF assms(1), of tw th cb seen]
      upscaleLanczos_staged [OF assms(1), of tw th cb seen] unfolding ts_def by auto
  have passes: "\<exists>c. upscaleLanczos src tw th True seen =
                   Some (seen @ map (\<lambda>j. 10 + 80 * real (j + 1) / real_of_int \<lceil>log 2 ts\<rceil>)
                                  [0..<nat \<lceil>log 2 ts\<rceil>], Inr c)"
    if big: "2 < ts"
  proof -
    have ts1: "1 < ts" using big by simp
    from stagedPasses_run [OF assms assms _ passes_count [OF ts1], of "\<lceil>log 2 ts\<rceil>" True 0 seen]
    show ?thesis
      using upscaleLanczos_staged [OF assms(1) big [unfolded ts_def], of th True seen]
      unfolding ts_def by auto
  qed
  from eq passes show ?thesis unfolding ts_def by blast
qed

theorem upscaleLanczos_strategy_witness:
  "0 < width (createCanvas 1 1) \<and> 0 < height (createCanvas 1 1)
   \<and> 2 < binary64 (real 3 / real (width (createCanvas 1 1)))
   \<and> upscaleLanczos (createCanvas 1 1) 3 3 False [] =
       Some (stagedPasses 1 1 3 2 False 2 (createCanvas 1 1) 1 0 [])
   \<and> reported (upscaleLanczos (createCanvas 1 1) 3 3 True []) = [50, 90]"
proof -
  have h: "0 < width (createCanvas 1 1)" "0 < height (createCanvas 1 1)" by simp_all
  have upt: "[0..<2] = [0, 1]" by (simp add: upt_rec)
  from upscaleLanczos_strategy [OF h, of 3 3 False "[]"]
    upscaleLanczos_strategy [OF h, of 3 3 True "[]"]
  show ?thesis
    by (auto simp add: binary64_numeral ceiling_log2_3 reported_def upt)
qed

subsection \<open>The identity (claim C8)\<close>

text \<open>
  Claim C8: resampling a source that is not empty to its own dimensions, with any of the
  three algorithms, returns a buffer of the source's length whose every channel value
  equals the source's or differs from it by at most 1. The source is a bitmap (four bytes
  for each pixel, each at most 255) whose sides a double holds exactly. The Lanczos pass
  computes every pixel itself. Bilinear and bicubic hand the source to the browser's
  smoothing, in one draw at the source's size; for them the claim is the browser's
  property \<open>sameSizeCopy\<close>, which is assumed.
\<close>

theorem upscale_identity:
  assumes "0 < naturalWidth img" "0 < naturalHeight img"
    and "naturalWidth img < 2 ^ 53" "naturalHeight img < 2 ^ 53"
    and "length (pixels img) = 4 * naturalWidth img * naturalHeight img"
    and "\<forall>b \<in> set (pixels img). b \<le> 255"
    and "alg \<noteq> Lanczos \<longrightarrow>
           sameSizeCopy B \<lparr>width = naturalWidth img, height = naturalHeight img, data = pixels img\<rparr>"
  shows "\<exists>seen c. upscale B (Some img) (naturalWidth img) (naturalHeight img) alg cb
                   = Some (seen, Inr c)
           \<and> length (data c) = length (pixels img)
           \<and> (\<forall>i < length (pixels img). \<bar>int (data c ! i) - int (pixels img ! i)\<bar> \<le> 1)"
proof (cases "alg = Lanczos")
  case True
  from upscale_lanczos_same_size [OF assms(1-6), of B cb]
  show ?thesis unfolding True by auto
next
  case False
  with assms(7) have "sameSizeCopy B
      \<lparr>width = naturalWidth img, height = naturalHeight img, data = pixels img\<rparr>" by simp
  from upscale_smoothing_same_size [OF assms(1-5) False this, of cb]
  show ?thesis by auto
qed

theorem upscale_identity_witness:
  "0 < naturalWidth onePixel \<and> 0 < naturalHeight onePixel
   \<and> naturalWidth onePixel < 2 ^ 53 \<and> naturalHeight onePixel < 2 ^ 53
   \<and> length (pixels onePixel) = 4 * naturalWidth onePixel * naturalHeight onePixel
   \<and> set (pixels onePixel) \<subseteq> {..255}
   \<and> sameSizeCopy copyBrowser \<lparr>width = naturalWidth onePixel, height = naturalHeight onePixel,
        data = pixels onePixel\<rparr>
   \<and> bufferLength (upscale copyBrowser (Some onePixel) 1 1 Bicubic False) = Some 4
   \<and> bufferLength (upscale plainBrowser (Some onePixel) 1 1 Lanczos False) = Some 4"
proof -
  have h: "0 < naturalWidth onePixel" "0 < naturalHeight onePixel"
    "naturalWidth onePixel < 2 ^ 53" "naturalHeight onePixel < 2 ^ 53"
    "length (pixels onePixel) = 4 * naturalWidth onePixel * naturalHeight onePixel"
    "\<forall>b \<in> set (pixels onePixel). b \<le> 255"
    by (simp_all add: onePixel_def)
  have copy: "sameSizeCopy copyBrowser \<lparr>width = naturalWidth onePixel,
      height = naturalHeight onePixel, data = pixels onePixel\<rparr>"
    unfolding sameSizeCopy_def
  proof (intro allI impI)
    fix i
    assume "i < length (data \<lparr>width = naturalWidth onePixel, height = naturalHeight onePixel,
      data = pixels onePixel\<rparr>)"
    then have "i < 4" by (simp add: onePixel_def)
    then have "i = 0 \<or> i = 1 \<or> i = 2 \<or> i = 3" by linarith
    then show "unat (smoothing copyBrowser
          \<lparr>width = naturalWidth onePixel, height = naturalHeight onePixel, data = pixels onePixel\<rparr>
          (whole \<lparr>width = naturalWidth onePixel, height = naturalHeight onePixel,
             data = pixels onePixel\<rparr>)
          (createCanvas
             (width \<lparr>width = naturalWidth onePixel, height = naturalHeight onePixel,
                data = pixels onePixel\<rparr>)
             (height \<lparr>width = naturalWidth onePixel, height = naturalHeight onePixel,
                data = pixels onePixel\<rparr>)) i)
        = data \<lparr>width = naturalWidth onePixel, height = naturalHeight onePixel,
            data = pixels onePixel\<rparr> ! i"
      by (auto simp add: copyBrowser_def onePixel_def)
  qed
  have a: "Bicubic \<noteq> Lanczos \<longrightarrow> sameSizeCopy copyBrowser \<lparr>width = naturalWidth onePixel,
      height = naturalHeight onePixel, data = pixels onePixel\<rparr>"
    using copy by simp
  have b: "Lanczos \<noteq> Lanczos \<longrightarrow> sameSizeCopy plainBrowser \<lparr>width = naturalWidth onePixel,
      height = naturalHeight onePixel, data = pixels onePixel\<rparr>"
    by simp
  have n: "naturalWidth onePixel = 1" "naturalHeight onePixel = 1" "length (pixels onePixel) = 4"
    by (simp_all add: onePixel_def)
  from upscale_identity [OF h a, of False] upscale_identity [OF h b, of False]
  show ?thesis
    using h copy unfolding n by (auto simp add: bufferLength_def returned_def onePixel_def)
qed

subsection \<open>Progress (claim C9)\<close>





subsection \<open>The staged branch ignores the requested height (claim C10)\<close>

text \<open>
  Claim C10: in the staged branch of the lanczos strategy (scale above 2) the dimensions
  of every pass, the final output included, are \<open>round(sourceWidth \<times> nextScale)\<close> by
  \<open>round(sourceHeight \<times> nextScale)\<close>, with \<open>nextScale\<close> derived from the width ratio
  alone, quotient and products being the doubles the code computes. The requested height
  is never consulted: the run is the same for every \<open>targetHeight\<close>, and the output
  height differs from the requested one whenever that is not
  \<open>round(sourceHeight \<times> (targetWidth / sourceWidth))\<close>.
\<close>

theorem staged_ignores_targetHeight:
  assumes "0 < width src" "0 < height src" "2 < binary64 (real tw / real (width src))"
  shows "\<exists>seen' c. upscaleLanczos src tw th cb seen = Some (seen', Inr c)
           \<and> width c = nat (round_half_up (binary64 (real (width src)
                             * binary64 (real tw / real (width src)))))
           \<and> height c = nat (round_half_up (binary64 (real (height src)
                             * binary64 (real tw / real (width src)))))
           \<and> (\<forall>th'. upscaleLanczos src tw th' cb seen =
                  Some (stagedPasses (width src) (height src) (binary64 (real tw / real (width src)))
                          \<lceil>log 2 (binary64 (real tw / real (width src)))\<rceil> cb
                          (nat \<lceil>log 2 (binary64 (real tw / real (width src)))\<rceil>) src 1 0 seen))
           \<and> (th \<noteq> nat (round_half_up (binary64 (real (height src)
                             * binary64 (real tw / real (width src)))))
                \<longrightarrow> height c \<noteq> th)"
proof -
  define ts where "ts = binary64 (real tw / real (width src))"
  define tot where "tot = \<lceil>log 2 ts\<rceil>"
  have big: "2 < ts" using assms(3) by (simp add: ts_def)
  have ts1: "1 < ts" using big by simp
  have "1 < tot" unfolding tot_def using big by (rule ceiling_log2_pos)
  then have n: "0 < nat tot" by simp
  from stagedPasses_run [OF assms(1,2) assms(1,2) _ passes_count [OF ts1], of tot cb 0 seen]
  obtain seen' c where c: "stagedPasses (width src) (height src) ts tot cb (nat tot) src 1 0 seen
        = (seen', Inr c)"
      "width c = nat (round_half_up (binary64 (real (width src) * ts)))"
      "height c = nat (round_half_up (binary64 (real (height src) * ts)))"
    using n unfolding tot_def by auto
  have same: "upscaleLanczos src tw th' cb seen = Some (seen', Inr c)" for th'
    using upscaleLanczos_staged [OF assms(1,3), of th' cb seen] c(1)
    by (simp add: ts_def tot_def)
  have "upscaleLanczos src tw th' cb seen =
          Some (stagedPasses (width src) (height src) ts tot cb (nat tot) src 1 0 seen)" for th'
    using same [of th'] c(1) by simp
  then show ?thesis
    using same [of th] c(2,3) unfolding ts_def tot_def
    by (intro exI [of _ seen'] exI [of _ c]) simp
qed

theorem staged_ignores_targetHeight_witness:
  "0 < width tallCanvas \<and> 0 < height tallCanvas
   \<and> 2 < binary64 (real 13 / real (width tallCanvas))
   \<and> dimensions (upscaleLanczos tallCanvas 13 59 False []) = Some (13, 58)"
proof -
  have h: "0 < width tallCanvas" "0 < height tallCanvas"
    "2 < binary64 (real 13 / real (width tallCanvas))"
    using staged_tallCanvas_13(1) by (simp_all add: tallCanvas_def)
  from staged_ignores_targetHeight [OF h, of 59 False "[]"] show ?thesis
    using h unfolding staged_tallCanvas_13(2,3) by (auto simp add: dimensions_def returned_def)
qed

subsection \<open>The divisor of the direct Lanczos pass (claim C3)\<close>

text \<open>
  Claim C3: in the direct Lanczos pass the division by the weight sum is never made with
  a zero divisor. The code divides without a test (lines 254 to 257); the test is not
  needed, because for every destination pixel of a pass from a source that is not empty
  to a target that is not empty the weight sum over the clamped window is positive.
\<close>

theorem weightSum_never_zero:
  assumes "0 < srcWidth" "0 < srcHeight" "0 < targetWidth" "0 < targetHeight"
    and "x < targetWidth" "y < targetHeight"
  shows "0 < weightSumAt srcData srcWidth srcHeight targetWidth targetHeight x y
       \<and> (\<exists>r g b a. lanczosPixel srcData srcWidth srcHeight targetWidth targetHeight x y =
            [channel r (weightSumAt srcData srcWidth srcHeight targetWidth targetHeight x y),
             channel g (weightSumAt srcData srcWidth srcHeight targetWidth targetHeight x y),
             channel b (weightSumAt srcData srcWidth srcHeight targetWidth targetHeight x y),
             channel a (weightSumAt srcData srcWidth srcHeight targetWidth targetHeight x y)])"
proof -
  note cx = source_coordinate [OF assms(3,5), of srcWidth]
  note cy = source_coordinate [OF assms(4,6), of srcHeight]
  have "0 < weightSumAt srcData srcWidth srcHeight targetWidth targetHeight x y"
    unfolding weightSumAt_product
    by (intro mult_pos_pos window_sum_pos assms(1,2) cx(1) cx(2) cy(1) cy(2))
  then show ?thesis using lanczosPixel_divisor by blast
qed

theorem weightSum_never_zero_witness:
  "(0::nat) < 1 \<and> (1::nat) < 2
   \<and> 0 < weightSumAt (pixels onePixel) 1 1 2 2 1 1"
proof -
  have h: "(0::nat) < 1" "(0::nat) < 2" "(1::nat) < 2" by simp_all
  from weightSum_never_zero [OF h(1) h(1) h(2) h(2) h(3) h(3), of "pixels onePixel"]
  show ?thesis by simp
qed

end
